theory Spec2Isabelle
  imports Main
begin

section \<open>Exceptions\<close>

text \<open>
  The exceptions that the pagination code of \<^verbatim>\<open>ga4gh/backend.py\<close> can raise, as values.
  \<open>BadPageTokenException\<close> carries its message, \<open>BadPageSizeException\<close> the rejected
  page size. \<open>StopIteration\<close>, \<open>AssertionError\<close>, \<open>KeyError\<close>, \<open>IndexError\<close>,
  \<open>ValueError\<close> and \<open>TypeError\<close> are the interpreter's own exceptions.
\<close>

datatype error =
    BadPageTokenException string
  | BadPageSizeException int
  | StopIteration
  | AssertionError
  | KeyError
  | IndexError
  | ValueError
  | TypeError

section \<open>Decimal text of integers\<close>

text \<open>
  \<^verbatim>\<open>str(n)\<close> and \<^verbatim>\<open>"{}".format(n)\<close> of an integer: an optional minus sign and
  the decimal digits, most significant first, without leading zeros.
\<close>

definition digitChar :: "nat \<Rightarrow> char" where
  "digitChar n = char_of (48 + n)"

fun strNat :: "nat \<Rightarrow> string" where
  "strNat n = (if n < 10 then [digitChar n] else strNat (n div 10) @ [digitChar (n mod 10)])"

declare strNat.simps [simp del]

definition strInt :: "int \<Rightarrow> string" where
  "strInt i = (if i < 0 then CHR ''-'' # strNat (nat (- i)) else strNat (nat i))"

section \<open>Parsing integers: the builtin \<^verbatim>\<open>int\<close> on text\<close>

text \<open>
  The text of a request is a sequence of code points, the interpreter's text type of
  decoded requests. A \<open>char\<close> stands for the code point of its number, so the texts of
  this theory are those of code points below 256.

  \<^verbatim>\<open>int(s)\<close> in base 10 on such a text, in the interpreter this code runs on (version
  2 of the language): whitespace is skipped, one sign is allowed, whitespace is skipped
  again, at least one digit must follow, and only whitespace may follow the digits.
  Everything else is a \<^verbatim>\<open>ValueError\<close>, here \<open>None\<close>. Whitespace is what
  \<^verbatim>\<open>isspace\<close> of the text type accepts: the codes 9 to 13, 28 to 32, 133 and 160. A digit
  is a code from 48 to 57; below 256 no other code point has a decimal value.
\<close>

definition digitVal :: "char \<Rightarrow> nat option" where
  "digitVal c =
     (let k = (of_char c :: nat) in if 48 \<le> k \<and> k < 58 then Some (k - 48) else None)"

fun natOfDigits :: "nat \<Rightarrow> string \<Rightarrow> nat option" where
  "natOfDigits acc [] = Some acc"
| "natOfDigits acc (c # cs) =
     (case digitVal c of None \<Rightarrow> None | Some d \<Rightarrow> natOfDigits (10 * acc + d) cs)"

definition isSpace :: "char \<Rightarrow> bool" where
  "isSpace c =
     (let k = (of_char c :: nat) in
      (9 \<le> k \<and> k \<le> 13) \<or> (28 \<le> k \<and> k \<le> 32) \<or> k = 133 \<or> k = 160)"

definition isDigit :: "char \<Rightarrow> bool" where
  "isDigit c = (digitVal c \<noteq> None)"

definition pyInt :: "string \<Rightarrow> int option" where
  "pyInt s =
     (case dropWhile isSpace s of
        [] \<Rightarrow> None
      | c # cs \<Rightarrow>
          (let body = dropWhile isSpace
                        (if c = CHR ''-'' \<or> c = CHR ''+'' then cs else c # cs);
               ds = takeWhile isDigit body;
               trail = dropWhile isDigit body
           in if ds = [] \<or> dropWhile isSpace trail \<noteq> [] then None
              else map_option (\<lambda>n. if c = CHR ''-'' then - int n else int n)
                     (natOfDigits 0 ds)))"

text \<open>
  What a base-10 integer is as a text, said without the parser: whitespace, an optional
  sign, whitespace, one or more decimal digits, whitespace; and the integer that the text
  denotes, the value of the digits in base 10 with the sign.
\<close>

definition whitespace :: "string \<Rightarrow> bool" where
  "whitespace ws = (\<forall>c \<in> set ws. (of_char c :: nat) \<in> {9..13} \<union> {28..32} \<union> {133, 160})"

definition decimalDigits :: "string \<Rightarrow> bool" where
  "decimalDigits ds = (ds \<noteq> [] \<and> (\<forall>c \<in> set ds. (of_char c :: nat) \<in> {48..57}))"

definition decimalValue :: "string \<Rightarrow> nat" where
  "decimalValue ds = foldl (\<lambda>v c. 10 * v + (of_char c - 48)) 0 ds"

definition denotes :: "string \<Rightarrow> int \<Rightarrow> bool" where
  "denotes field v =
     (\<exists>lead sgn mid ds trail.
        field = lead @ sgn @ mid @ ds @ trail \<and> whitespace lead \<and>
        (sgn = [] \<or> sgn = ''+'' \<or> sgn = ''-'') \<and> whitespace mid \<and> decimalDigits ds \<and>
        whitespace trail \<and>
        v = (if sgn = ''-'' then - int (decimalValue ds) else int (decimalValue ds)))"

section \<open>Page tokens\<close>

text \<open>\<^verbatim>\<open>pageToken.split(":")\<close>: the fields between the separators; never the empty list.\<close>

fun splitOn :: "char \<Rightarrow> string \<Rightarrow> string list" where
  "splitOn sep [] = [[]]"
| "splitOn sep (c # cs) =
     (if c = sep then [] # splitOn sep cs
      else (case splitOn sep cs of [] \<Rightarrow> [[c]] | f # fs \<Rightarrow> (c # f) # fs))"

text \<open>The text whose fields are \<open>fs\<close>: the fields with the separator between them.\<close>

fun joinOn :: "char \<Rightarrow> string list \<Rightarrow> string" where
  "joinOn sep [] = []"
| "joinOn sep [f] = f"
| "joinOn sep (f # g # fs) = f @ sep # joinOn sep (g # fs)"

text \<open>\<^verbatim>\<open>map(int, tokens)\<close> inside the \<^verbatim>\<open>try\<close>: the values, or \<open>None\<close> at the first
  \<^verbatim>\<open>ValueError\<close>.\<close>

fun mapInt :: "string list \<Rightarrow> int list option" where
  "mapInt [] = Some []"
| "mapInt (t # ts) =
     (case pyInt t of
        None \<Rightarrow> None
      | Some v \<Rightarrow> (case mapInt ts of None \<Rightarrow> None | Some vs \<Rightarrow> Some (v # vs)))"

text \<open>\<^verbatim>\<open>_parsePageToken(pageToken, numValues)\<close>, lines 35 to 52.\<close>

definition parsePageToken :: "string \<Rightarrow> nat \<Rightarrow> error + int list" where
  "parsePageToken pageToken numValues =
     (let tokens = splitOn CHR '':'' pageToken in
      if length tokens \<noteq> numValues then
        Inl (BadPageTokenException ''Invalid number of values in page token'')
      else
        (case mapInt tokens of
           None \<Rightarrow> Inl (BadPageTokenException ''Malformed integers in page token'')
         | Some values \<Rightarrow> Inr values))"

text \<open>\<^verbatim>\<open>"{}:{}".format(searchAnchor, distanceFromAnchor)\<close>, line 167.\<close>

definition formatToken :: "int \<Rightarrow> int \<Rightarrow> string" where
  "formatToken a d = strInt a @ CHR '':'' # strInt d"

section \<open>Requests and interval sources\<close>

text \<open>
  The fields of a search request that pagination reads. \<open>end'\<close> is the request's
  \<^verbatim>\<open>end\<close>. An absent \<^verbatim>\<open>pageToken\<close> or \<^verbatim>\<open>pageSize\<close> is \<open>None\<close>.
\<close>

record SearchRequest =
  start :: int
  end' :: int
  pageToken :: "string option"
  pageSize :: "int option"

text \<open>
  \<^verbatim>\<open>self._search(start, end)\<close> of a resolved container: the finite sequence the
  container yields for the range. Each call is recorded as a query \<open>(start, end)\<close>.
  \<^verbatim>\<open>self._getStart(obj)\<close> is a second parameter of the iterator.
\<close>

type_synonym 'a search = "int \<Rightarrow> int \<Rightarrow> 'a list"

type_synonym query = "int \<times> int"

text \<open>The builtin \<^verbatim>\<open>next(it, None)\<close> and \<^verbatim>\<open>next(it)\<close> on the unread part of a sequence.\<close>

definition nextOrNone :: "'a list \<Rightarrow> 'a option \<times> 'a list" where
  "nextOrNone it = (case it of [] \<Rightarrow> (None, []) | x # rest \<Rightarrow> (Some x, rest))"

definition nextOrRaise :: "'a list \<Rightarrow> error + ('a \<times> 'a list)" where
  "nextOrRaise it = (case it of [] \<Rightarrow> Inl StopIteration | x # rest \<Rightarrow> Inr (x, rest))"

section \<open>The interval iterator\<close>

text \<open>
  The mutable attributes of \<^verbatim>\<open>IntervalIterator\<close>; \<open>searchIterator\<close> is the unread part
  of the source's sequence. The request and the container do not change and are parameters.
\<close>

record 'a IntervalIterator =
  searchIterator :: "'a list"
  currentObject :: "'a option"
  nextObject :: "'a option"
  searchAnchor :: "int option"
  distanceFromAnchor :: "int option"

text \<open>\<^verbatim>\<open>_initialiseIteration\<close>, lines 104 to 117.\<close>

definition initialiseIteration ::
  "'a search \<Rightarrow> ('a \<Rightarrow> int) \<Rightarrow> SearchRequest \<Rightarrow> query list \<times> 'a IntervalIterator" where
  "initialiseIteration search getStart request =
     (let (cur, it1) = nextOrNone (search (start request) (end' request)) in
      ([(start request, end' request)],
       (case cur of
          None \<Rightarrow>
            \<lparr>searchIterator = it1, currentObject = None, nextObject = None,
             searchAnchor = None, distanceFromAnchor = None\<rparr>
        | Some obj \<Rightarrow>
            (let (nxt, it2) = nextOrNone it1;
                 firstObjectStart = getStart obj
             in \<lparr>searchIterator = it2, currentObject = Some obj, nextObject = nxt,
                 searchAnchor =
                   Some (if firstObjectStart > start request then firstObjectStart
                         else start request),
                 distanceFromAnchor = Some 0\<rparr>))))"

text \<open>The loop of lines 135 and 136: \<^verbatim>\<open>range(objectsToSkip)\<close> steps of \<^verbatim>\<open>next\<close>.\<close>

fun skipForward :: "nat \<Rightarrow> 'a \<Rightarrow> 'a list \<Rightarrow> error + ('a \<times> 'a list)" where
  "skipForward 0 obj it = Inr (obj, it)"
| "skipForward (Suc k) obj it =
     (case nextOrRaise it of Inl e \<Rightarrow> Inl e | Inr (obj', it') \<Rightarrow> skipForward k obj' it')"

text \<open>The loop of lines 141 and 142: while the object starts before the anchor, read on.\<close>

fun skipEarlier :: "('a \<Rightarrow> int) \<Rightarrow> int \<Rightarrow> 'a \<Rightarrow> 'a list \<Rightarrow> error + ('a \<times> 'a list)" where
  "skipEarlier getStart anchor obj [] =
     (if getStart obj < anchor then Inl StopIteration else Inr (obj, []))"
| "skipEarlier getStart anchor obj (x # rest) =
     (if getStart obj < anchor then skipEarlier getStart anchor x rest else Inr (obj, x # rest))"

text \<open>The loop of lines 145 to 147: each skipped object is asserted to start at the anchor.\<close>

fun skipEqual ::
  "('a \<Rightarrow> int) \<Rightarrow> int \<Rightarrow> nat \<Rightarrow> 'a \<Rightarrow> 'a list \<Rightarrow> error + ('a \<times> 'a list)" where
  "skipEqual getStart anchor 0 obj it = Inr (obj, it)"
| "skipEqual getStart anchor (Suc k) obj it =
     (if getStart obj \<noteq> anchor then Inl AssertionError
      else (case nextOrRaise it of
              Inl e \<Rightarrow> Inl e
            | Inr (obj', it') \<Rightarrow> skipEqual getStart anchor k obj' it'))"

text \<open>
  \<^verbatim>\<open>_pickUpIteration(searchAnchor, objectsToSkip)\<close>, lines 119 to 149.
  \<^verbatim>\<open>range(objectsToSkip)\<close> is empty for a negative count, so the loops run
  \<open>nat objectsToSkip\<close> times. The query is made before the first \<^verbatim>\<open>next\<close> can fail.
\<close>

definition pickUpIteration ::
  "'a search \<Rightarrow> ('a \<Rightarrow> int) \<Rightarrow> SearchRequest \<Rightarrow> int \<Rightarrow> int \<Rightarrow>
     query list \<times> (error + 'a IntervalIterator)" where
  "pickUpIteration search getStart request anchor objectsToSkip =
     ([(anchor, end' request)],
      (case nextOrRaise (search anchor (end' request)) of
         Inl e \<Rightarrow> Inl e
       | Inr (obj, it1) \<Rightarrow>
           (case (if anchor = start request then skipForward (nat objectsToSkip) obj it1
                  else (case skipEarlier getStart anchor obj it1 of
                          Inl e \<Rightarrow> Inl e
                        | Inr (obj', it2) \<Rightarrow>
                            skipEqual getStart anchor (nat objectsToSkip) obj' it2)) of
              Inl e \<Rightarrow> Inl e
            | Inr (obj', it3) \<Rightarrow>
                (let (nxt, it4) = nextOrNone it3 in
                 Inr \<lparr>searchIterator = it4, currentObject = Some obj', nextObject = nxt,
                      searchAnchor = Some anchor,
                      distanceFromAnchor = Some objectsToSkip\<rparr>))))"

text \<open>
  \<^verbatim>\<open>IntervalIterator.__init__\<close>, lines 87 to 102, for a container that resolved. The
  unpacking of line 101 needs exactly two values, which \<^verbatim>\<open>_parsePageToken\<close> has
  checked.
\<close>

definition newIntervalIterator ::
  "'a search \<Rightarrow> ('a \<Rightarrow> int) \<Rightarrow> SearchRequest \<Rightarrow> query list \<times> (error + 'a IntervalIterator)" where
  "newIntervalIterator search getStart request =
     (case pageToken request of
        None \<Rightarrow>
          (let (queries, it) = initialiseIteration search getStart request
           in (queries, Inr it))
      | Some token \<Rightarrow>
          (case parsePageToken token 2 of
             Inl e \<Rightarrow> ([], Inl e)
           | Inr vals \<Rightarrow>
               (case vals of
                  [anchor, objectsToSkip] \<Rightarrow>
                    pickUpIteration search getStart request anchor objectsToSkip
                | _ \<Rightarrow> ([], Inl ValueError))))"

text \<open>Lines 170 and 171: the lookahead moves up and one more object is read.\<close>

definition advance :: "'a IntervalIterator \<Rightarrow> 'a IntervalIterator" where
  "advance it =
     (let (nxt, rest) = nextOrNone (searchIterator it) in
      it\<lparr>currentObject := nextObject it, nextObject := nxt, searchIterator := rest\<rparr>)"

text \<open>
  \<^verbatim>\<open>IntervalIterator.next\<close>, lines 151 to 172: the pair returned and the iterator after
  the call. An integer compares greater than an unset (\<^verbatim>\<open>None\<close>) anchor in this
  interpreter; incrementing an unset distance is a \<^verbatim>\<open>TypeError\<close>.
\<close>

definition "next" ::
  "('a \<Rightarrow> int) \<Rightarrow> 'a IntervalIterator \<Rightarrow>
     error + (('a \<times> string option) \<times> 'a IntervalIterator)" where
  "next getStart it =
     (case currentObject it of
        None \<Rightarrow> Inl StopIteration
      | Some cur \<Rightarrow>
          (case nextObject it of
             None \<Rightarrow> Inr ((cur, None), advance it)
           | Some nxt \<Rightarrow>
               (let s = getStart nxt in
                if (case searchAnchor it of None \<Rightarrow> True | Some a \<Rightarrow> s > a) then
                  Inr ((cur, Some (formatToken s 0)),
                       advance (it\<lparr>searchAnchor := Some s, distanceFromAnchor := Some 0\<rparr>))
                else
                  (case (searchAnchor it, distanceFromAnchor it) of
                     (Some a, Some d) \<Rightarrow>
                       Inr ((cur, Some (formatToken a (d + 1))),
                            advance (it\<lparr>distanceFromAnchor := Some (d + 1)\<rparr>))
                   | _ \<Rightarrow> Inl TypeError))))"

section \<open>Generators\<close>

text \<open>
  What a \<^verbatim>\<open>for\<close> loop sees of an iterator: the values it yields, ended by
  \<^verbatim>\<open>StopIteration\<close> (\<open>Stop\<close>) or by another exception (\<open>Raise\<close>).
\<close>

datatype 'y generator = Stop | Raise error | Yield 'y "'y generator"

definition remaining :: "'a IntervalIterator \<Rightarrow> nat" where
  "remaining it =
     (case currentObject it of
        None \<Rightarrow> 0
      | Some _ \<Rightarrow>
          (case nextObject it of None \<Rightarrow> 1 | Some _ \<Rightarrow> 2 + length (searchIterator it)))"

function iterate :: "('a \<Rightarrow> int) \<Rightarrow> 'a IntervalIterator \<Rightarrow> ('a \<times> string option) generator" where
  "iterate getStart it =
     (case next getStart it of
        Inl e \<Rightarrow> (if e = StopIteration then Stop else Raise e)
      | Inr (y, it') \<Rightarrow> Yield y (iterate getStart it'))"
  by pat_completeness auto
termination
proof (relation "measure (\<lambda>(getStart, it). remaining it)")
  show "wf (measure (\<lambda>(getStart, it). remaining it))" by simp
next
  fix getStart :: "'a \<Rightarrow> int" and it :: "'a IntervalIterator" and x y it'
  assume "next getStart it = Inr x" and "(y, it') = x"
  then have n: "next getStart it = Inr (y, it')" by simp
  have "remaining it' < remaining it"
  proof (cases "currentObject it")
    case None
    with n show ?thesis by (simp add: next_def)
  next
    case (Some cur)
    show ?thesis
    proof (cases "nextObject it")
      case None
      with n Some show ?thesis
        by (auto simp: next_def advance_def remaining_def nextOrNone_def split: list.splits)
    next
      case nx: (Some nxt)
      with n Some show ?thesis
        by (auto simp: next_def advance_def remaining_def nextOrNone_def Let_def
            split: list.splits if_splits option.splits)
    qed
  qed
  then show "((getStart, it'), (getStart, it)) \<in> measure (\<lambda>(getStart, it). remaining it)"
    by simp
qed

declare iterate.simps [simp del]

text \<open>
  \<^verbatim>\<open>variantsGenerator\<close> and \<^verbatim>\<open>readsGenerator\<close>, lines 430 to 457, once the container
  is resolved: the iterator is built and handed to the loop.
\<close>

definition intervalsGenerator ::
  "'a search \<Rightarrow> ('a \<Rightarrow> int) \<Rightarrow> SearchRequest \<Rightarrow>
     query list \<times> (error + ('a \<times> string option) generator)" where
  "intervalsGenerator search getStart request =
     (case newIntervalIterator search getStart request of
        (queries, Inl e) \<Rightarrow> (queries, Inl e)
      | (queries, Inr it) \<Rightarrow> (queries, Inr (iterate getStart it)))"

section \<open>Flat collections\<close>

text \<open>\<^verbatim>\<open>idList[currentIndex]\<close>: a negative index counts from the end of the list.\<close>

definition listIndex :: "'k list \<Rightarrow> int \<Rightarrow> error + 'k" where
  "listIndex ids i =
     (if 0 \<le> i \<and> i < int (length ids) then Inr (ids ! nat i)
      else if i < 0 \<and> - int (length ids) \<le> i then Inr (ids ! nat (int (length ids) + i))
      else Inl IndexError)"

text \<open>
  The \<^verbatim>\<open>while\<close> loop of \<^verbatim>\<open>_topLevelObjectGenerator\<close>, lines 364 to 371.
  \<open>toProtocolElement\<close> is the object's method of that name.
\<close>

function topLevelLoop ::
  "('v \<Rightarrow> 'o) \<Rightarrow> ('k \<rightharpoonup> 'v) \<Rightarrow> 'k list \<Rightarrow> int \<Rightarrow> ('o \<times> string option) generator" where
  "topLevelLoop toProtocolElement idMap idList currentIndex =
     (if currentIndex < int (length idList) then
        (case listIndex idList currentIndex of
           Inl e \<Rightarrow> Raise e
         | Inr objectId \<Rightarrow>
             (case idMap objectId of
                None \<Rightarrow> Raise KeyError
              | Some object \<Rightarrow>
                  Yield (toProtocolElement object,
                         if currentIndex + 1 < int (length idList)
                         then Some (strInt (currentIndex + 1)) else None)
                    (topLevelLoop toProtocolElement idMap idList (currentIndex + 1))))
      else Stop)"
  by pat_completeness auto
termination
  by (relation "measure (\<lambda>(f, m, ids, i). nat (int (length ids) - i))") auto

declare topLevelLoop.simps [simp del]

text \<open>
  \<^verbatim>\<open>_topLevelObjectGenerator(request, idMap, idList)\<close>, lines 356 to 371. The body of a
  generator function runs at the first \<^verbatim>\<open>next\<close>, so a bad token is raised inside the
  loop that consumes it.
\<close>

definition topLevelObjectGenerator ::
  "('v \<Rightarrow> 'o) \<Rightarrow> SearchRequest \<Rightarrow> ('k \<rightharpoonup> 'v) \<Rightarrow> 'k list \<Rightarrow> ('o \<times> string option) generator" where
  "topLevelObjectGenerator toProtocolElement request idMap idList =
     (case pageToken request of
        None \<Rightarrow> topLevelLoop toProtocolElement idMap idList 0
      | Some token \<Rightarrow>
          (case parsePageToken token 1 of
             Inl e \<Rightarrow> Raise e
           | Inr vals \<Rightarrow>
               (case vals of
                  [currentIndex] \<Rightarrow> topLevelLoop toProtocolElement idMap idList currentIndex
                | _ \<Rightarrow> Raise ValueError)))"

section \<open>The response builder\<close>

text \<open>
  Modelled from the spec: \<^verbatim>\<open>protocol.SearchResponseBuilder\<close> is not among the sources.
  The builder accumulates objects; it stops accepting once the configured page size is
  reached, or once including the next object would exceed the configured maximum
  serialized size, and that object is then excluded. \<open>jsonLength\<close> is the serialized size
  of an object. The calls are those of \<^verbatim>\<open>runSearchRequest\<close>: \<^verbatim>\<open>addValue\<close>,
  \<^verbatim>\<open>isFull\<close>, \<^verbatim>\<open>setNextPageToken\<close> and \<^verbatim>\<open>getJsonString\<close>, whose text is
  represented by the record of the values and the token that it serializes.
\<close>

record 'o SearchResponseBuilder =
  builderPageSize :: int
  builderMaxLength :: int
  numElements :: nat
  responseLength :: nat
  overBudget :: bool
  valueList :: "'o list"
  builderNextPageToken :: "string option"

record 'o SearchResponse =
  responseValues :: "'o list"
  nextPageToken :: "string option"

definition newSearchResponseBuilder :: "int \<Rightarrow> int \<Rightarrow> 'o SearchResponseBuilder" where
  "newSearchResponseBuilder limit maxLength =
     \<lparr>builderPageSize = limit, builderMaxLength = maxLength, numElements = 0,
      responseLength = 0, overBudget = False, valueList = [], builderNextPageToken = None\<rparr>"

text \<open>
  Modelled from the spec: the builder is full once the page size is reached or an object
  has been excluded for the size budget; \<^verbatim>\<open>addValue\<close> on a full builder changes nothing.
\<close>

definition isFull :: "'o SearchResponseBuilder \<Rightarrow> bool" where
  "isFull b = (builderPageSize b \<le> int (numElements b) \<or> overBudget b)"

definition addValue ::
  "('o \<Rightarrow> nat) \<Rightarrow> 'o SearchResponseBuilder \<Rightarrow> 'o \<Rightarrow> 'o SearchResponseBuilder" where
  "addValue jsonLength b obj =
     (if isFull b then b
      else if builderMaxLength b < int (responseLength b + jsonLength obj)
      then b\<lparr>overBudget := True\<rparr>
      else b\<lparr>numElements := numElements b + 1,
             responseLength := responseLength b + jsonLength obj,
             valueList := valueList b @ [obj]\<rparr>)"

definition setNextPageToken ::
  "'o SearchResponseBuilder \<Rightarrow> string option \<Rightarrow> 'o SearchResponseBuilder" where
  "setNextPageToken b token = b\<lparr>builderNextPageToken := token\<rparr>"

definition getResponse :: "'o SearchResponseBuilder \<Rightarrow> 'o SearchResponse" where
  "getResponse b = \<lparr>responseValues = valueList b, nextPageToken = builderNextPageToken b\<rparr>"

section \<open>Running a search request\<close>

text \<open>The configuration of \<^verbatim>\<open>AbstractBackend\<close> that a search reads.\<close>

record Backend =
  defaultPageSize :: int
  maxResponseLength :: int

text \<open>
  The loop of lines 520 to 524 over the generator: the builder and the last
  \<^verbatim>\<open>nextPageToken\<close> bound by the loop, or the exception that ended it.
\<close>

fun fillPage ::
  "('o \<Rightarrow> nat) \<Rightarrow> 'o SearchResponseBuilder \<Rightarrow> string option \<Rightarrow>
     ('o \<times> string option) generator \<Rightarrow> error + ('o SearchResponseBuilder \<times> string option)" where
  "fillPage jsonLength b token Stop = Inr (b, token)"
| "fillPage jsonLength b token (Raise e) = Inl e"
| "fillPage jsonLength b token (Yield (obj, token') g) =
     (let b' = addValue jsonLength b obj in
      if isFull b' then Inr (b', token') else fillPage jsonLength b' token' g)"

text \<open>
  \<^verbatim>\<open>runSearchRequest\<close>, lines 513 to 529, from the typed request on, with request and
  response validation switched off (their default). The result is the list of source
  queries made and the response or the exception raised.
\<close>

definition runSearchRequest ::
  "Backend \<Rightarrow> ('o \<Rightarrow> nat) \<Rightarrow>
     (SearchRequest \<Rightarrow> query list \<times> (error + ('o \<times> string option) generator)) \<Rightarrow>
     SearchRequest \<Rightarrow> query list \<times> (error + 'o SearchResponse)" where
  "runSearchRequest backend jsonLength objectGenerator request =
     (let limit = (case pageSize request of None \<Rightarrow> defaultPageSize backend | Some n \<Rightarrow> n);
          request' = request\<lparr>pageSize := Some limit\<rparr>
      in if limit \<le> 0 then ([], Inl (BadPageSizeException limit))
         else
           (let responseBuilder = newSearchResponseBuilder limit (maxResponseLength backend)
            in case objectGenerator request' of
                 (queries, Inl e) \<Rightarrow> (queries, Inl e)
               | (queries, Inr g) \<Rightarrow>
                   (case fillPage jsonLength responseBuilder None g of
                      Inl e \<Rightarrow> (queries, Inl e)
                    | Inr (b, token) \<Rightarrow>
                        (queries, Inr (getResponse (setNextPageToken b token))))))"

section \<open>A client that follows the continuation tokens\<close>

text \<open>
  The client of the protocol: it requests a page, and while the page carries a token it
  requests the next page with that token, appending the values. \<open>fuel\<close> bounds the
  number of requests; \<open>None\<close> means the bound was reached.
\<close>

fun drivePages ::
  "nat \<Rightarrow> (string option \<Rightarrow> error + 'o SearchResponse) \<Rightarrow> string option \<Rightarrow>
     (error + 'o list) option" where
  "drivePages 0 page token = None"
| "drivePages (Suc fuel) page token =
     (case page token of
        Inl e \<Rightarrow> Some (Inl e)
      | Inr response \<Rightarrow>
          (case nextPageToken response of
             None \<Rightarrow> Some (Inr (responseValues response))
           | Some t \<Rightarrow>
               (case drivePages fuel page (Some t) of
                  None \<Rightarrow> None
                | Some (Inl e) \<Rightarrow> Some (Inl e)
                | Some (Inr rest) \<Rightarrow> Some (Inr (responseValues response @ rest)))))"

text \<open>One page of an interval search for the request with the given token.\<close>

definition intervalPage ::
  "Backend \<Rightarrow> ('a \<Rightarrow> nat) \<Rightarrow> 'a search \<Rightarrow> ('a \<Rightarrow> int) \<Rightarrow> SearchRequest \<Rightarrow>
     string option \<Rightarrow> error + 'a SearchResponse" where
  "intervalPage backend jsonLength search getStart request token =
     snd (runSearchRequest backend jsonLength (intervalsGenerator search getStart)
            (request\<lparr>pageToken := token\<rparr>))"

section \<open>The contract of an interval source\<close>

text \<open>
  What the iterator relies on for a request over \<open>(s, e)\<close>: the source yields the objects
  in non-decreasing order of start, and a query from the start \<open>a\<close> of one of these
  objects, later than \<open>s\<close>, yields, after the objects that start before \<open>a\<close>, exactly
  the objects that the first query yields from the first one that starts at \<open>a\<close>.
\<close>

definition sourceContract :: "'a search \<Rightarrow> ('a \<Rightarrow> int) \<Rightarrow> int \<Rightarrow> int \<Rightarrow> bool" where
  "sourceContract search getStart s e =
     (sorted (map getStart (search s e)) \<and>
      (\<forall>x \<in> set (search s e). s < getStart x \<longrightarrow>
         dropWhile (\<lambda>y. getStart y < getStart x) (search (getStart x) e) =
         dropWhile (\<lambda>y. getStart y < getStart x) (search s e)))"

text \<open>The serialized sizes of all objects of the result together stay within the budget.\<close>

definition withinBudget :: "Backend \<Rightarrow> ('a \<Rightarrow> nat) \<Rightarrow> 'a list \<Rightarrow> bool" where
  "withinBudget backend jsonLength objs =
     (int (sum_list (map jsonLength objs)) \<le> maxResponseLength backend)"

text \<open>
  A source of the kind the containers wrap: a file of intervals \<open>(name, start, end)\<close>
  kept in order of start, of which a query yields those that overlap the range.
\<close>

type_synonym interval = "string \<times> int \<times> int"

definition intervalStart :: "interval \<Rightarrow> int" where
  "intervalStart x = fst (snd x)"

definition fetch :: "interval list \<Rightarrow> interval search" where
  "fetch file s e = filter (\<lambda>x. fst (snd x) < e \<and> s < snd (snd x)) file"

section \<open>The stream of an iterator, as a function of the source's sequence\<close>

text \<open>
  The iterator whose current object is the head of \<open>zs\<close>, whose lookahead is the next
  element, and which has the rest of \<open>zs\<close> still to read.
\<close>

definition positioned :: "int \<times> int \<Rightarrow> 'a list \<Rightarrow> 'a IntervalIterator" where
  "positioned ad zs =
     \<lparr>searchIterator = drop 2 zs,
      currentObject = (case zs of [] \<Rightarrow> None | x # _ \<Rightarrow> Some x),
      nextObject = (case drop 1 zs of [] \<Rightarrow> None | y # _ \<Rightarrow> Some y),
      searchAnchor = Some (fst ad), distanceFromAnchor = Some (snd ad)\<rparr>"

text \<open>Lines 162 to 166: anchor and distance once the lookahead is the object \<open>y\<close>.\<close>

definition anchorStep :: "('a \<Rightarrow> int) \<Rightarrow> int \<times> int \<Rightarrow> 'a \<Rightarrow> int \<times> int" where
  "anchorStep getStart ad y =
     (if getStart y > fst ad then (getStart y, 0) else (fst ad, snd ad + 1))"

text \<open>The pairs yielded from the current object \<open>c\<close> with \<open>ys\<close> behind it.\<close>

fun emit :: "('a \<Rightarrow> int) \<Rightarrow> int \<times> int \<Rightarrow> 'a \<Rightarrow> 'a list \<Rightarrow> ('a \<times> string option) list" where
  "emit getStart ad c [] = [(c, None)]"
| "emit getStart ad c (y # ys) =
     (c, Some (formatToken (fst (anchorStep getStart ad y)) (snd (anchorStep getStart ad y))))
       # emit getStart (anchorStep getStart ad y) y ys"

text \<open>
  Anchor and distance when \<open>c\<close> is the current object and \<open>pre\<close> has been yielded before
  it: the anchor is the start of \<open>c\<close>, or the request's start \<open>s\<close> if that is later, and the
  distance counts the objects of \<open>pre\<close> at that anchor.
\<close>

definition anchored :: "('a \<Rightarrow> int) \<Rightarrow> int \<Rightarrow> 'a list \<Rightarrow> 'a \<Rightarrow> int \<times> int \<Rightarrow> bool" where
  "anchored getStart s pre c ad =
     (fst ad = max s (getStart c) \<and>
      snd ad = int (length (filter (\<lambda>x. max s (getStart x) = fst ad) pre)))"

text \<open>The values a generator yields before it ends.\<close>

fun yielded :: "'y generator \<Rightarrow> 'y list" where
  "yielded Stop = []"
| "yielded (Raise e) = []"
| "yielded (Yield y g) = y # yielded g"

text \<open>
  The tokens issued over unchanged data: those a first request (without token) yields,
  and those yielded when a request resumes from an issued token.
\<close>

inductive issued :: "'a search \<Rightarrow> ('a \<Rightarrow> int) \<Rightarrow> SearchRequest \<Rightarrow> string \<Rightarrow> bool"
  for search :: "'a search" and getStart :: "'a \<Rightarrow> int" and request :: SearchRequest where
  first:
    "snd (intervalsGenerator search getStart (request\<lparr>pageToken := None\<rparr>)) = Inr g \<Longrightarrow>
     (obj, Some token) \<in> set (yielded g) \<Longrightarrow> issued search getStart request token"
| resumed:
    "issued search getStart request token \<Longrightarrow>
     snd (intervalsGenerator search getStart (request\<lparr>pageToken := Some token\<rparr>)) = Inr g \<Longrightarrow>
     (obj, Some token') \<in> set (yielded g) \<Longrightarrow> issued search getStart request token'"

text \<open>
  Two such files. In the first, three intervals start at 5 and one at 7, and the first
  interval ends before 7. In the second, two intervals start at 10 and three at 20, and
  only the second interval reaches 20.
\<close>

definition tieFile :: "interval list" where
  "tieFile = [(''a'', 5, 6), (''b'', 5, 9), (''c'', 5, 9), (''d'', 7, 9)]"

definition groupFile :: "interval list" where
  "groupFile =
     [(''a'', 10, 15), (''b'', 10, 25), (''c'', 20, 30), (''d'', 20, 30), (''e'', 20, 30)]"

definition mebibyte :: Backend where
  "mebibyte = \<lparr>defaultPageSize = 100, maxResponseLength = 2 ^ 20\<rparr>"

definition window :: "int option \<Rightarrow> string option \<Rightarrow> SearchRequest" where
  "window limit token = \<lparr>start = 0, end' = 100, pageToken = token, pageSize = limit\<rparr>"

definition nameLength :: "interval \<Rightarrow> nat" where
  "nameLength x = length (fst x)"

text \<open>
  The element that \<^verbatim>\<open>idList[j]\<close> denotes for an index \<open>j\<close> from \<open>- length idList\<close> up to
  \<open>length idList - 1\<close>.
\<close>

definition elementAt :: "'k list \<Rightarrow> int \<Rightarrow> 'k" where
  "elementAt ids j = ids ! nat (if j < 0 then int (length ids) + j else j)"

section \<open>Properties of the token codec\<close>

lemma digitVal_digitChar: "n < 10 \<Longrightarrow> digitVal (digitChar n) = Some n"
  by (simp add: digitVal_def digitChar_def)

lemma isSpace_iff: "isSpace c \<longleftrightarrow> (of_char c :: nat) \<in> {9..13} \<union> {28..32} \<union> {133, 160}"
  by (auto simp: isSpace_def Let_def)

lemma isDigit_iff: "isDigit c \<longleftrightarrow> (of_char c :: nat) \<in> {48..57}"
  by (auto simp: isDigit_def digitVal_def Let_def)

lemma digitVal_isDigit: "isDigit c \<Longrightarrow> digitVal c = Some (of_char c - 48)"
  by (auto simp: isDigit_def digitVal_def Let_def split: if_splits)

lemma isDigit_not_space: "isDigit c \<Longrightarrow> \<not> isSpace c"
  by (auto simp: isDigit_iff isSpace_iff)

lemma sign_chars:
  "\<not> isSpace CHR ''-''" "\<not> isSpace CHR ''+''" "\<not> isDigit CHR ''-''" "\<not> isDigit CHR ''+''"
  "\<not> isDigit CHR '':''"
  by (simp_all add: isSpace_iff isDigit_iff)

lemma isDigit_not_sign: "isDigit c \<Longrightarrow> c \<noteq> CHR ''-'' \<and> c \<noteq> CHR ''+'' \<and> c \<noteq> CHR '':''"
  using sign_chars by auto

lemma whitespace_iff: "whitespace ws \<longleftrightarrow> (\<forall>c \<in> set ws. isSpace c)"
  by (simp add: whitespace_def isSpace_iff)

lemma decimalDigits_iff: "decimalDigits ds \<longleftrightarrow> ds \<noteq> [] \<and> (\<forall>c \<in> set ds. isDigit c)"
  by (simp add: decimalDigits_def isDigit_iff)

lemma natOfDigits_foldl:
  "\<forall>c \<in> set ds. isDigit c \<Longrightarrow>
   natOfDigits acc ds = Some (foldl (\<lambda>v c. 10 * v + (of_char c - 48)) acc ds)"
  by (induction ds arbitrary: acc) (simp_all add: digitVal_isDigit)

lemma natOfDigits_decimalValue:
  "\<forall>c \<in> set ds. isDigit c \<Longrightarrow> natOfDigits 0 ds = Some (decimalValue ds)"
  by (simp add: natOfDigits_foldl decimalValue_def)

lemma takeWhile_digits_spaces:
  assumes "\<forall>c \<in> set ds. isDigit c" "\<forall>c \<in> set trail. isSpace c"
  shows "takeWhile isDigit (ds @ trail) = ds" "dropWhile isDigit (ds @ trail) = trail"
proof -
  have t: "takeWhile isDigit trail = []" "dropWhile isDigit trail = trail"
    using assms(2) isDigit_not_space by (cases trail; auto)+
  show "takeWhile isDigit (ds @ trail) = ds" using assms(1) t by (simp add: takeWhile_append2)
  show "dropWhile isDigit (ds @ trail) = trail" using assms(1) t by (simp add: dropWhile_append2)
qed

lemma dropWhile_spaces_digits:
  assumes "\<forall>c \<in> set ws. isSpace c" "ds \<noteq> []" "\<forall>c \<in> set ds. isDigit c"
  shows "dropWhile isSpace (ws @ ds @ trail) = ds @ trail"
proof -
  from assms(2,3) obtain d ds' where d: "ds = d # ds'" "\<not> isSpace d"
    using isDigit_not_space by (cases ds) auto
  then have "dropWhile isSpace (ds @ trail) = ds @ trail" by simp
  with assms(1) show ?thesis by (simp add: dropWhile_append2)
qed

lemma pyInt_eval:
  assumes h: "dropWhile isSpace field = c # cs"
    and b: "dropWhile isSpace (if c = CHR ''-'' \<or> c = CHR ''+'' then cs else c # cs) = ds @ trail"
    and ds: "ds \<noteq> []" "\<forall>c \<in> set ds. isDigit c" and tr: "\<forall>c \<in> set trail. isSpace c"
  shows "pyInt field =
           Some (if c = CHR ''-'' then - int (decimalValue ds) else int (decimalValue ds))"
proof -
  have tk: "takeWhile isDigit (ds @ trail) = ds" "dropWhile isDigit (ds @ trail) = trail"
    using takeWhile_digits_spaces [OF ds(2) tr] by simp_all
  have e: "dropWhile isSpace trail = []" using tr by simp
  have nd: "natOfDigits 0 ds = Some (decimalValue ds)"
    using ds(2) by (rule natOfDigits_decimalValue)
  have "pyInt field =
      (let body = ds @ trail; ds' = takeWhile isDigit body; trail' = dropWhile isDigit body
       in if ds' = [] \<or> dropWhile isSpace trail' \<noteq> [] then None
          else map_option (\<lambda>n. if c = CHR ''-'' then - int n else int n) (natOfDigits 0 ds'))"
    unfolding pyInt_def h b [symmetric] by simp
  also have "\<dots> = Some (if c = CHR ''-'' then - int (decimalValue ds) else int (decimalValue ds))"
    unfolding Let_def tk e nd using ds(1) by simp
  finally show ?thesis .
qed

lemma denotes_pyInt:
  assumes "denotes field v"
  shows "pyInt field = Some v"
proof -
  from assms obtain lead sgn mid ds trail where
    f: "field = lead @ sgn @ mid @ ds @ trail" and l: "\<forall>c \<in> set lead. isSpace c"
    and s: "sgn = [] \<or> sgn = ''+'' \<or> sgn = ''-''" and m: "\<forall>c \<in> set mid. isSpace c"
    and d: "ds \<noteq> []" "\<forall>c \<in> set ds. isDigit c" and t: "\<forall>c \<in> set trail. isSpace c"
    and v: "v = (if sgn = ''-'' then - int (decimalValue ds) else int (decimalValue ds))"
    unfolding denotes_def whitespace_iff decimalDigits_iff by blast
  have body: "dropWhile isSpace (mid @ ds @ trail) = ds @ trail"
    using m d by (rule dropWhile_spaces_digits)
  from s show ?thesis
  proof (elim disjE)
    assume e: "sgn = []"
    from d obtain c cs where c: "ds = c # cs" "isDigit c" by (cases ds) auto
    then have nc: "c \<noteq> CHR ''-''" "c \<noteq> CHR ''+''" "\<not> isSpace c"
      using isDigit_not_sign isDigit_not_space by blast+
    have "dropWhile isSpace field = dropWhile isSpace (mid @ ds @ trail)"
      unfolding f e using l by (simp add: dropWhile_append2)
    then have h: "dropWhile isSpace field = c # (cs @ trail)" using body c by simp
    have b: "dropWhile isSpace (if c = CHR ''-'' \<or> c = CHR ''+'' then cs @ trail
        else c # (cs @ trail)) = ds @ trail"
      using nc c by simp
    from pyInt_eval [OF h b d t] nc v e show ?thesis by simp
  next
    assume e: "sgn = ''+''"
    have "dropWhile isSpace field = dropWhile isSpace (CHR ''+'' # mid @ ds @ trail)"
      unfolding f e using l by (simp add: dropWhile_append2)
    then have h: "dropWhile isSpace field = CHR ''+'' # (mid @ ds @ trail)"
      using sign_chars by simp
    have b: "dropWhile isSpace (if CHR ''+'' = CHR ''-'' \<or> CHR ''+'' = CHR ''+''
        then mid @ ds @ trail else CHR ''+'' # (mid @ ds @ trail)) = ds @ trail"
      using body by simp
    from pyInt_eval [OF h b d t] v e show ?thesis by simp
  next
    assume e: "sgn = ''-''"
    have "dropWhile isSpace field = dropWhile isSpace (CHR ''-'' # mid @ ds @ trail)"
      unfolding f e using l by (simp add: dropWhile_append2)
    then have h: "dropWhile isSpace field = CHR ''-'' # (mid @ ds @ trail)"
      using sign_chars by simp
    have b: "dropWhile isSpace (if CHR ''-'' = CHR ''-'' \<or> CHR ''-'' = CHR ''+''
        then mid @ ds @ trail else CHR ''-'' # (mid @ ds @ trail)) = ds @ trail"
      using body by simp
    from pyInt_eval [OF h b d t] v e show ?thesis by simp
  qed
qed

lemma pyInt_denotes:
  assumes "pyInt field = Some v"
  shows "denotes field v"
proof -
  define lead where "lead = takeWhile isSpace field"
  have f: "field = lead @ dropWhile isSpace field" by (simp add: lead_def)
  have l: "\<forall>c \<in> set lead. isSpace c" by (auto simp: lead_def dest: set_takeWhileD)
  from assms obtain c cs where t: "dropWhile isSpace field = c # cs"
    by (cases "dropWhile isSpace field") (auto simp: pyInt_def)
  define sgn where "sgn = (if c = CHR ''-'' \<or> c = CHR ''+'' then [c] else [])"
  define u where "u = (if c = CHR ''-'' \<or> c = CHR ''+'' then cs else c # cs)"
  have tu: "c # cs = sgn @ u" by (simp add: sgn_def u_def)
  define mid where "mid = takeWhile isSpace u"
  define body where "body = dropWhile isSpace u"
  have u: "u = mid @ body" by (simp add: mid_def body_def)
  have m: "\<forall>c \<in> set mid. isSpace c" by (auto simp: mid_def dest: set_takeWhileD)
  define ds where "ds = takeWhile isDigit body"
  define trail where "trail = dropWhile isDigit body"
  have b: "body = ds @ trail" by (simp add: ds_def trail_def)
  have d: "\<forall>c \<in> set ds. isDigit c" by (auto simp: ds_def dest: set_takeWhileD)
  have "pyInt field = (if ds = [] \<or> dropWhile isSpace trail \<noteq> [] then None
              else map_option (\<lambda>n. if c = CHR ''-'' then - int n else int n)
                     (natOfDigits 0 ds))"
    unfolding pyInt_def t ds_def trail_def body_def u_def Let_def by simp
  with assms have p: "(if ds = [] \<or> dropWhile isSpace trail \<noteq> [] then None
              else map_option (\<lambda>n. if c = CHR ''-'' then - int n else int n)
                     (natOfDigits 0 ds)) = Some v"
    by simp
  have ok: "\<not> (ds = [] \<or> dropWhile isSpace trail \<noteq> [])"
  proof
    assume "ds = [] \<or> dropWhile isSpace trail \<noteq> []"
    then have "(if ds = [] \<or> dropWhile isSpace trail \<noteq> [] then None
              else map_option (\<lambda>n. if c = CHR ''-'' then - int n else int n)
                     (natOfDigits 0 ds)) = None"
      by (simp only: if_True)
    with p show False by simp
  qed
  then have dn: "ds \<noteq> []" and tr: "dropWhile isSpace trail = []" by simp_all
  from tr have tw: "\<forall>c \<in> set trail. isSpace c" by (simp add: dropWhile_eq_Nil_conv)
  have "map_option (\<lambda>n. if c = CHR ''-'' then - int n else int n) (natOfDigits 0 ds) = Some v"
    using p ok by (simp only: if_False)
  then have v: "v = (if c = CHR ''-'' then - int (decimalValue ds) else int (decimalValue ds))"
    unfolding natOfDigits_decimalValue [OF d] by auto
  have sg: "sgn = [] \<or> sgn = ''+'' \<or> sgn = ''-''" by (auto simp: sgn_def)
  have vs: "v = (if sgn = ''-'' then - int (decimalValue ds) else int (decimalValue ds))"
    using v by (auto simp: sgn_def)
  have "field = lead @ sgn @ mid @ ds @ trail"
    using f t tu u b by (metis append_assoc)
  with l sg m dn d tw vs show ?thesis
    unfolding denotes_def whitespace_iff decimalDigits_iff by blast
qed

lemma pyInt_iff: "pyInt field = Some v \<longleftrightarrow> denotes field v"
  using pyInt_denotes denotes_pyInt by blast

lemma digitChar_isDigit: "n < 10 \<Longrightarrow> isDigit (digitChar n)"
  by (simp add: isDigit_def digitVal_digitChar)

lemma strNat_digits: "c \<in> set (strNat n) \<Longrightarrow> isDigit c"
proof (induction n rule: strNat.induct)
  case (1 n)
  show ?case
  proof (cases "n < 10")
    case True
    with 1(2) show ?thesis by (simp add: strNat.simps [of n] digitChar_isDigit)
  next
    case False
    from 1(2) False have "c \<in> set (strNat (n div 10)) \<or> c = digitChar (n mod 10)"
      by (auto simp: strNat.simps [of n])
    then show ?thesis
    proof
      assume "c \<in> set (strNat (n div 10))"
      with 1(1) False show ?thesis by simp
    next
      assume "c = digitChar (n mod 10)"
      then show ?thesis using digitChar_isDigit [of "n mod 10"] by simp
    qed
  qed
qed

lemma strNat_nonempty: "strNat n \<noteq> []"
  by (subst strNat.simps) simp

lemma decimalValue_snoc: "decimalValue (ds @ [c]) = 10 * decimalValue ds + (of_char c - 48)"
  by (simp add: decimalValue_def)

lemma decimalValue_strNat: "decimalValue (strNat n) = n"
proof (induction n rule: strNat.induct)
  case (1 n)
  show ?case
  proof (cases "n < 10")
    case True
    then show ?thesis by (simp add: strNat.simps [of n] decimalValue_def digitChar_def)
  next
    case False
    with 1 have "decimalValue (strNat (n div 10)) = n div 10" by simp
    moreover have "(of_char (digitChar (n mod 10)) :: nat) - 48 = n mod 10"
      by (simp add: digitChar_def)
    ultimately show ?thesis using False
      by (simp add: strNat.simps [of n] decimalValue_snoc)
  qed
qed

lemma decimalDigits_strNat: "decimalDigits (strNat n)"
  by (simp add: decimalDigits_iff strNat_nonempty strNat_digits)

lemma denotes_strInt: "denotes (strInt i) i"
proof (cases "i < 0")
  case True
  have "strInt i = [] @ ''-'' @ [] @ strNat (nat (- i)) @ []" using True by (simp add: strInt_def)
  moreover have "i = (if ''-'' = ''-'' then - int (decimalValue (strNat (nat (- i))))
      else int (decimalValue (strNat (nat (- i)))))"
    using True by (simp add: decimalValue_strNat)
  ultimately show ?thesis
    unfolding denotes_def using decimalDigits_strNat [of "nat (- i)"]
    by (intro exI [of _ "[]"] exI [of _ "''-''"] exI [of _ "strNat (nat (- i))"] conjI)
       (simp_all add: whitespace_def)
next
  case False
  have "strInt i = [] @ [] @ [] @ strNat (nat i) @ []" using False by (simp add: strInt_def)
  moreover have "i = (if ([] :: string) = ''-'' then - int (decimalValue (strNat (nat i)))
      else int (decimalValue (strNat (nat i))))"
    using False by (simp add: decimalValue_strNat)
  ultimately show ?thesis
    unfolding denotes_def using decimalDigits_strNat [of "nat i"]
    by (intro exI [of _ "[]"] exI [of _ "strNat (nat i)"] conjI)
       (simp_all add: whitespace_def)
qed

lemma pyInt_strInt: "pyInt (strInt i) = Some i"
  using denotes_strInt by (rule denotes_pyInt)

lemma strInt_chars: "c \<in> set (strInt i) \<Longrightarrow> c = CHR ''-'' \<or> isDigit c"
  by (auto simp: strInt_def dest: strNat_digits split: if_splits)

lemma strInt_no_colon: "CHR '':'' \<notin> set (strInt i)"
  using strInt_chars [of "CHR '':''" i] sign_chars by auto

lemma splitOn_nonempty: "splitOn sep s \<noteq> []"
  by (induction s) (auto split: list.splits)

lemma splitOn_no_sep: "sep \<notin> set s \<Longrightarrow> splitOn sep s = [s]"
  by (induction s) auto

lemma splitOn_append: "sep \<notin> set s \<Longrightarrow> splitOn sep (s @ sep # t) = s # splitOn sep t"
  by (induction s) auto

lemma splitOn_fields: "f \<in> set (splitOn sep s) \<Longrightarrow> sep \<notin> set f"
proof (induction s arbitrary: f)
  case Nil
  then show ?case by simp
next
  case (Cons c s)
  obtain g gs where g: "splitOn sep s = g # gs"
    using splitOn_nonempty [of sep s] by (cases "splitOn sep s") auto
  show ?case
  proof (cases "c = sep")
    case True
    with Cons show ?thesis by auto
  next
    case False
    with Cons.prems g have "f = c # g \<or> f \<in> set gs" by simp
    then show ?thesis
    proof
      assume "f = c # g"
      moreover have "sep \<notin> set g" using Cons.IH [of g] g by simp
      ultimately show ?thesis using False by simp
    next
      assume "f \<in> set gs"
      then show ?thesis using Cons.IH [of f] g by simp
    qed
  qed
qed

lemma joinOn_Cons: "fs \<noteq> [] \<Longrightarrow> joinOn sep (f # fs) = f @ sep # joinOn sep fs"
  by (cases fs) simp_all

lemma joinOn_splitOn: "joinOn sep (splitOn sep s) = s"
proof (induction s)
  case Nil
  show ?case by simp
next
  case (Cons c s)
  obtain g gs where g: "splitOn sep s = g # gs"
    using splitOn_nonempty [of sep s] by (cases "splitOn sep s") auto
  show ?case
  proof (cases "c = sep")
    case True
    then show ?thesis using Cons.IH splitOn_nonempty [of sep s] by (simp add: joinOn_Cons)
  next
    case False
    have "joinOn sep ((c # g) # gs) = c # joinOn sep (g # gs)" by (cases gs) simp_all
    with False g Cons.IH show ?thesis by simp
  qed
qed

lemma mapInt_pyInt: "mapInt ts = Some vs \<longleftrightarrow> list_all2 (\<lambda>t v. pyInt t = Some v) ts vs"
proof (induction ts arbitrary: vs)
  case Nil
  show ?case by auto
next
  case (Cons t ts)
  show ?case
  proof (cases vs)
    case Nil
    then show ?thesis by (simp split: option.splits)
  next
    case c: (Cons v vs')
    have "mapInt (t # ts) = Some (v # vs') \<longleftrightarrow> pyInt t = Some v \<and> mapInt ts = Some vs'"
      by (auto split: option.splits)
    then show ?thesis unfolding c Cons.IH [of vs'] by simp
  qed
qed

lemma mapInt_iff: "mapInt ts = Some vs \<longleftrightarrow> list_all2 denotes ts vs"
  by (simp add: mapInt_pyInt pyInt_iff)

lemma pyInt_None_iff: "pyInt t = None \<longleftrightarrow> \<not> (\<exists>v. denotes t v)"
  by (cases "pyInt t") (auto simp: pyInt_iff [symmetric])

lemma mapInt_None_pyInt: "mapInt ts = None \<longleftrightarrow> (\<exists>t \<in> set ts. pyInt t = None)"
  by (induction ts) (auto split: option.splits)

lemma mapInt_None: "mapInt ts = None \<longleftrightarrow> (\<exists>t \<in> set ts. \<not> (\<exists>v. denotes t v))"
  by (simp only: mapInt_None_pyInt pyInt_None_iff)

lemma parsePageToken_formatToken: "parsePageToken (formatToken a d) 2 = Inr [a, d]"
  by (simp add: parsePageToken_def formatToken_def splitOn_append splitOn_no_sep
      strInt_no_colon pyInt_strInt)

lemma parsePageToken_strInt: "parsePageToken (strInt i) 1 = Inr [i]"
  by (simp add: parsePageToken_def splitOn_no_sep strInt_no_colon pyInt_strInt)

text \<open>
  Claim C6. \<^verbatim>\<open>_parsePageToken\<close> splits the token on the colon: the fields hold no colon
  and, joined by colons, give the token back. It returns a list of values exactly when
  the number of fields is the arity and each field is a base-10 integer text, the values
  being the integers the fields denote, in order. It fails with \<open>BadPageTokenException\<close>
  exactly when the number of fields differs from the arity or some field is not a base-10
  integer text. The one-field token \<^verbatim>\<open>"5"\<close> where two fields are expected is
  rejected.
\<close>

theorem parsePageToken_decode:
  "(parsePageToken token arity = Inr vals \<longleftrightarrow>
      length (splitOn CHR '':'' token) = arity \<and>
      list_all2 denotes (splitOn CHR '':'' token) vals) \<and>
   ((\<exists>msg. parsePageToken token arity = Inl (BadPageTokenException msg)) \<longleftrightarrow>
      (length (splitOn CHR '':'' token) \<noteq> arity \<or>
       (\<exists>field \<in> set (splitOn CHR '':'' token). \<not> (\<exists>v. denotes field v)))) \<and>
   joinOn CHR '':'' (splitOn CHR '':'' token) = token \<and>
   (\<forall>field \<in> set (splitOn CHR '':'' token). CHR '':'' \<notin> set field) \<and>
   parsePageToken ''5'' 2 =
     Inl (BadPageTokenException ''Invalid number of values in page token'')"
proof (intro conjI)
  show "parsePageToken token arity = Inr vals \<longleftrightarrow>
      length (splitOn CHR '':'' token) = arity \<and>
      list_all2 denotes (splitOn CHR '':'' token) vals"
  proof (cases "length (splitOn CHR '':'' token) = arity")
    case False
    then show ?thesis by (simp add: parsePageToken_def)
  next
    case True
    show ?thesis
    proof (cases "mapInt (splitOn CHR '':'' token)")
      case None
      then have "mapInt (splitOn CHR '':'' token) \<noteq> Some vals" by simp
      then have "\<not> list_all2 denotes (splitOn CHR '':'' token) vals"
        by (simp only: mapInt_iff not_False_eq_True)
      with True None show ?thesis by (simp add: parsePageToken_def)
    next
      case (Some vs)
      have "vs = vals \<longleftrightarrow> list_all2 denotes (splitOn CHR '':'' token) vals"
        using Some mapInt_iff [of "splitOn CHR '':'' token" vals] by auto
      with True Some show ?thesis by (simp add: parsePageToken_def)
    qed
  qed
next
  show "(\<exists>msg. parsePageToken token arity = Inl (BadPageTokenException msg)) \<longleftrightarrow>
      (length (splitOn CHR '':'' token) \<noteq> arity \<or>
       (\<exists>field \<in> set (splitOn CHR '':'' token). \<not> (\<exists>v. denotes field v)))"
  proof (cases "length (splitOn CHR '':'' token) = arity")
    case False
    then show ?thesis by (simp add: parsePageToken_def)
  next
    case True
    show ?thesis
    proof (cases "mapInt (splitOn CHR '':'' token)")
      case None
      with True mapInt_None [of "splitOn CHR '':'' token"] show ?thesis
        by (simp add: parsePageToken_def)
    next
      case (Some vs)
      with True mapInt_None [of "splitOn CHR '':'' token"] show ?thesis
        by (simp add: parsePageToken_def)
    qed
  qed
next
  show "joinOn CHR '':'' (splitOn CHR '':'' token) = token" by (rule joinOn_splitOn)
next
  show "\<forall>field \<in> set (splitOn CHR '':'' token). CHR '':'' \<notin> set field"
    using splitOn_fields by blast
next
  show "parsePageToken ''5'' 2 =
     Inl (BadPageTokenException ''Invalid number of values in page token'')"
    by (simp add: parsePageToken_def)
qed

theorem parsePageToken_decode_witness:
  "parsePageToken ''- 5:+7 '' 2 = Inr [- 5, 7] \<and>
   list_all2 denotes [''- 5'', ''+7 ''] [- 5, 7] \<and>
   parsePageToken [CHR 0xA0, CHR ''5'', CHR 0x85] 1 = Inr [5] \<and>
   parsePageToken ''20:x'' 2 = Inl (BadPageTokenException ''Malformed integers in page token'') \<and>
   (\<exists>field \<in> set [''20'', ''x'']. \<not> (\<exists>v. denotes field v))"
proof -
  have a: "parsePageToken ''- 5:+7 '' 2 = Inr [- 5, 7]" by code_simp
  have f: "splitOn CHR '':'' ''- 5:+7 '' = [''- 5'', ''+7 '']" by simp
  from a parsePageToken_decode [of "''- 5:+7 ''" 2 "[- 5, 7]"]
  have b: "list_all2 denotes [''- 5'', ''+7 ''] [- 5, 7]" unfolding f by blast
  have c: "parsePageToken [CHR 0xA0, CHR ''5'', CHR 0x85] 1 = Inr [5]" by code_simp
  have d: "parsePageToken ''20:x'' 2 =
      Inl (BadPageTokenException ''Malformed integers in page token'')" by code_simp
  have g: "splitOn CHR '':'' ''20:x'' = [''20'', ''x'']" by simp
  from d parsePageToken_decode [of "''20:x''" 2]
  have e: "\<exists>field \<in> set [''20'', ''x'']. \<not> (\<exists>v. denotes field v)" unfolding g by auto
  from a b c d e show ?thesis by blast
qed


section \<open>Properties of the interval iterator\<close>

lemma iterate_exhausted: "currentObject it = None \<Longrightarrow> iterate getStart it = Stop"
  by (simp add: iterate.simps [of getStart it] next_def)

lemma positioned_Nil: "currentObject (positioned ad []) = None"
  by (simp add: positioned_def)

lemma next_positioned_last:
  "next getStart (positioned ad [c]) = Inr ((c, None), advance (positioned ad [c]))"
  by (simp add: next_def positioned_def)

lemma advance_positioned_last: "currentObject (advance (positioned ad [c])) = None"
  by (simp add: advance_def positioned_def nextOrNone_def)

lemma next_positioned_Cons:
  "next getStart (positioned ad (c # y # ys)) =
     Inr ((c, Some (formatToken (fst (anchorStep getStart ad y)) (snd (anchorStep getStart ad y)))),
          positioned (anchorStep getStart ad y) (y # ys))"
  by (cases ys)
     (simp_all add: next_def positioned_def anchorStep_def advance_def nextOrNone_def Let_def)

lemma iterate_positioned:
  "iterate getStart (positioned ad (c # ys)) = foldr Yield (emit getStart ad c ys) Stop"
proof (induction ys arbitrary: ad c)
  case Nil
  show ?case
    by (simp add: iterate.simps [of getStart "positioned ad [c]"] next_positioned_last
        iterate_exhausted advance_positioned_last)
next
  case (Cons y ys)
  show ?case
    by (simp add: iterate.simps [of getStart "positioned ad (c # y # ys)"] next_positioned_Cons
        Cons.IH)
qed

lemma map_fst_emit: "map fst (emit getStart ad c ys) = c # ys"
  by (induction ys arbitrary: ad c) simp_all

lemma emit_nonempty: "emit getStart ad c ys \<noteq> []"
  by (cases ys) simp_all

lemma last_take_emit:
  "0 < p \<Longrightarrow>
   snd (last (take p (emit getStart ad c ys))) =
     (if p \<le> length ys
      then Some (formatToken (fst (foldl (anchorStep getStart) ad (take p ys)))
                             (snd (foldl (anchorStep getStart) ad (take p ys))))
      else None)"
proof (induction ys arbitrary: ad c p)
  case Nil
  then show ?case by (cases p) simp_all
next
  case (Cons y ys)
  from Cons.prems obtain q where p: "p = Suc q" by (cases p) auto
  show ?case
  proof (cases q)
    case 0
    with p show ?thesis by simp
  next
    case (Suc r)
    then have "take q (emit getStart (anchorStep getStart ad y) y ys) \<noteq> []"
      using emit_nonempty [of getStart "anchorStep getStart ad y" y ys] by simp
    moreover have "0 < q" using Suc by simp
    ultimately show ?thesis using Cons.IH [of q "anchorStep getStart ad y" y] p
      by simp
  qed
qed

lemma skipForward_eq:
  "skipForward k obj it =
     (if k < length (obj # it) then Inr ((obj # it) ! k, drop (Suc k) (obj # it))
      else Inl StopIteration)"
proof (induction k arbitrary: obj it)
  case 0
  show ?case by simp
next
  case (Suc k)
  show ?case by (cases it) (simp_all add: nextOrRaise_def Suc.IH)
qed

lemma skipEarlier_eq:
  "skipEarlier getStart a obj it =
     (case dropWhile (\<lambda>y. getStart y < a) (obj # it) of
        [] \<Rightarrow> Inl StopIteration
      | z # zs \<Rightarrow> Inr (z, zs))"
  by (induction it arbitrary: obj) simp_all

lemma skipEqual_eq:
  "skipEqual getStart a k obj it =
     (if \<exists>x \<in> set (take k (obj # it)). getStart x \<noteq> a then Inl AssertionError
      else if k < length (obj # it) then Inr ((obj # it) ! k, drop (Suc k) (obj # it))
      else Inl StopIteration)"
proof (induction k arbitrary: obj it)
  case 0
  show ?case by simp
next
  case (Suc k)
  show ?case
  proof (cases "getStart obj = a")
    case False
    then show ?thesis by simp
  next
    case True
    show ?thesis
    proof (cases it)
      case Nil
      with True show ?thesis by (simp add: nextOrRaise_def)
    next
      case (Cons x rest)
      with True show ?thesis by (simp add: nextOrRaise_def Suc.IH)
    qed
  qed
qed

lemma positioned_nth:
  assumes "k < length zs"
  shows "\<lparr>searchIterator = drop (k + 2) zs, currentObject = Some (zs ! k),
    nextObject = (if k + 1 < length zs then Some (zs ! (k + 1)) else None),
    searchAnchor = Some a, distanceFromAnchor = Some d\<rparr> = positioned (a, d) (drop k zs)"
proof (cases "Suc k < length zs")
  case True
  have "drop k zs = zs ! k # zs ! Suc k # drop (Suc (Suc k)) zs"
    using assms True by (simp add: Cons_nth_drop_Suc)
  then show ?thesis using True by (simp add: positioned_def)
next
  case False
  have "drop k zs = zs ! k # drop (Suc k) zs"
    using assms by (simp add: Cons_nth_drop_Suc)
  moreover have "drop (Suc k) zs = []" "drop (Suc (Suc k)) zs = []" using False by simp_all
  ultimately show ?thesis using False by (simp add: positioned_def)
qed

lemma nextOrNone_drop:
  "nextOrNone (drop (Suc k) zs) =
     ((if k + 1 < length zs then Some (zs ! (k + 1)) else None), drop (k + 2) zs)"
proof (cases "Suc k < length zs")
  case True
  then have "drop (Suc k) zs = zs ! Suc k # drop (Suc (Suc k)) zs"
    by (simp add: Cons_nth_drop_Suc)
  with True show ?thesis by (simp add: nextOrNone_def)
next
  case False
  then have "drop (Suc k) zs = []" "drop (Suc (Suc k)) zs = []" by simp_all
  with False show ?thesis by (simp add: nextOrNone_def)
qed

lemma pickUpIteration_eq:
  "pickUpIteration search getStart request anchor skip =
     ([(anchor, end' request)],
      (let results = search anchor (end' request);
           kept = (if anchor = start request then results
                   else dropWhile (\<lambda>x. getStart x < anchor) results)
       in if anchor \<noteq> start request \<and> (\<exists>x \<in> set (take (nat skip) kept). getStart x \<noteq> anchor)
          then Inl AssertionError
          else if length kept \<le> nat skip then Inl StopIteration
          else Inr \<lparr>searchIterator = drop (nat skip + 2) kept,
                    currentObject = Some (kept ! nat skip),
                    nextObject = (if nat skip + 1 < length kept
                                  then Some (kept ! (nat skip + 1)) else None),
                    searchAnchor = Some anchor, distanceFromAnchor = Some skip\<rparr>))"
proof -
  define results where "results = search anchor (end' request)"
  define k where "k = nat skip"
  define kept where "kept = (if anchor = start request then results
                   else dropWhile (\<lambda>x. getStart x < anchor) results)"
  define fin where "fin = (\<lambda>res :: error + ('a \<times> 'a list). case res of
              Inl e \<Rightarrow> Inl e
            | Inr (obj', it3) \<Rightarrow>
                (let (nxt, it4) = nextOrNone it3 in
                 Inr \<lparr>searchIterator = it4, currentObject = Some obj', nextObject = nxt,
                      searchAnchor = Some anchor,
                      distanceFromAnchor = Some skip\<rparr>))"
  define skipped where "skipped =
      (if anchor \<noteq> start request \<and> (\<exists>x \<in> set (take k kept). getStart x \<noteq> anchor)
       then Inl AssertionError
       else if length kept \<le> k then Inl StopIteration
       else Inr (kept ! k, drop (Suc k) kept))"
  have lhs: "pickUpIteration search getStart request anchor skip =
      ([(anchor, end' request)],
       (case nextOrRaise results of
         Inl e \<Rightarrow> Inl e
       | Inr (obj, it1) \<Rightarrow>
           fin (if anchor = start request then skipForward k obj it1
                  else (case skipEarlier getStart anchor obj it1 of
                          Inl e \<Rightarrow> Inl e
                        | Inr (obj', it2) \<Rightarrow> skipEqual getStart anchor k obj' it2))))"
    unfolding pickUpIteration_def results_def k_def fin_def ..
  have mid: "(case nextOrRaise results of
         Inl e \<Rightarrow> Inl e
       | Inr (obj, it1) \<Rightarrow>
           fin (if anchor = start request then skipForward k obj it1
                  else (case skipEarlier getStart anchor obj it1 of
                          Inl e \<Rightarrow> Inl e
                        | Inr (obj', it2) \<Rightarrow> skipEqual getStart anchor k obj' it2))) = fin skipped"
  proof (cases results)
    case Nil
    then have "kept = []" by (simp add: kept_def)
    then have "skipped = Inl StopIteration" by (simp add: skipped_def)
    with Nil show ?thesis by (simp add: nextOrRaise_def fin_def)
  next
    case (Cons obj it1)
    have "(if anchor = start request then skipForward k obj it1
                  else (case skipEarlier getStart anchor obj it1 of
                          Inl e \<Rightarrow> Inl e
                        | Inr (obj', it2) \<Rightarrow> skipEqual getStart anchor k obj' it2)) = skipped"
    proof (cases "anchor = start request")
      case True
      then have kr: "kept = obj # it1" by (simp add: kept_def Cons)
      have "skipForward k obj it1 = skipped"
        unfolding skipped_def kr skipForward_eq using True by (simp add: not_less)
      with True show ?thesis by simp
    next
      case False
      then have kr: "kept = dropWhile (\<lambda>x. getStart x < anchor) (obj # it1)"
        by (simp add: kept_def Cons)
      show ?thesis
      proof (cases kept)
        case Nil
        then have "skipped = Inl StopIteration" by (simp add: skipped_def)
        moreover have "skipEarlier getStart anchor obj it1 = Inl StopIteration"
          unfolding skipEarlier_eq kr [symmetric] Nil by simp
        ultimately show ?thesis using False by simp
      next
        case kc: (Cons z zs)
        have "skipEarlier getStart anchor obj it1 = Inr (z, zs)"
          unfolding skipEarlier_eq kr [symmetric] kc by simp
        moreover have "skipEqual getStart anchor k z zs = skipped"
          unfolding skipped_def kc skipEqual_eq using False by (simp add: not_less)
        ultimately show ?thesis using False by simp
      qed
    qed
    with Cons show ?thesis by (simp add: nextOrRaise_def)
  qed
  have rhs: "fin skipped =
      (if anchor \<noteq> start request \<and> (\<exists>x \<in> set (take k kept). getStart x \<noteq> anchor)
          then Inl AssertionError
          else if length kept \<le> k then Inl StopIteration
          else Inr \<lparr>searchIterator = drop (k + 2) kept,
                    currentObject = Some (kept ! k),
                    nextObject = (if k + 1 < length kept
                                  then Some (kept ! (k + 1)) else None),
                    searchAnchor = Some anchor, distanceFromAnchor = Some skip\<rparr>)"
    by (simp add: fin_def skipped_def nextOrNone_drop)
  show ?thesis
    unfolding lhs mid rhs unfolding kept_def k_def results_def Let_def ..
qed

lemma anchored_step:
  assumes srt: "sorted (map getStart (pre @ c # y # ys))"
    and anch: "anchored getStart s pre c ad"
  shows "anchored getStart s (pre @ [c]) y (anchorStep getStart ad y)"
proof -
  from srt have le: "\<forall>x \<in> set pre. getStart x \<le> getStart c" and cy: "getStart c \<le> getStart y"
    by (auto simp: sorted_append)
  from anch have a: "fst ad = max s (getStart c)"
    and d: "snd ad = int (length (filter (\<lambda>x. max s (getStart x) = fst ad) pre))"
    by (simp_all add: anchored_def)
  show ?thesis
  proof (cases "getStart y > fst ad")
    case True
    have "\<forall>x \<in> set (pre @ [c]). max s (getStart x) \<noteq> getStart y"
      using le a True by auto
    then have "filter (\<lambda>x. max s (getStart x) = getStart y) (pre @ [c]) = []"
      by (simp only: filter_empty_conv)
    moreover have "getStart y = max s (getStart y)" using a True by simp
    ultimately show ?thesis using True by (simp add: anchored_def anchorStep_def)
  next
    case False
    then have "fst ad = max s (getStart y)" using a cy by auto
    with False a d show ?thesis by (simp add: anchored_def anchorStep_def)
  qed
qed

lemma anchored_foldl:
  "sorted (map getStart (pre @ c # ys)) \<Longrightarrow> anchored getStart s pre c ad \<Longrightarrow>
   i \<le> length ys \<Longrightarrow>
   anchored getStart s (pre @ take i (c # ys)) ((c # ys) ! i)
     (foldl (anchorStep getStart) ad (take i ys))"
proof (induction ys arbitrary: pre c ad i)
  case Nil
  then show ?case by simp
next
  case (Cons y ys)
  show ?case
  proof (cases i)
    case 0
    with Cons.prems show ?thesis by simp
  next
    case (Suc j)
    have st: "anchored getStart s (pre @ [c]) y (anchorStep getStart ad y)"
      using Cons.prems(1,2) by (rule anchored_step)
    have "anchored getStart s ((pre @ [c]) @ take j (y # ys)) ((y # ys) ! j)
        (foldl (anchorStep getStart) (anchorStep getStart ad y) (take j ys))"
      using Cons.prems(1,3) Suc by (intro Cons.IH st) simp_all
    with Suc show ?thesis by simp
  qed
qed

lemma dropWhile_sorted_split:
  "sorted (map getStart (pre @ c # ys)) \<Longrightarrow>
   dropWhile (\<lambda>x. getStart x < getStart c) (pre @ c # ys) =
     filter (\<lambda>x. getStart x = getStart c) pre @ c # ys"
proof (induction pre)
  case Nil
  show ?case by simp
next
  case (Cons p pre)
  then have pc: "getStart p \<le> getStart c" and srt: "sorted (map getStart (pre @ c # ys))"
    and pp: "\<forall>x \<in> set pre. getStart p \<le> getStart x"
    and pc': "\<forall>x \<in> set pre. getStart x \<le> getStart c"
    by (auto simp: sorted_append)
  show ?case
  proof (cases "getStart p < getStart c")
    case True
    with Cons.IH [OF srt] show ?thesis by simp
  next
    case False
    with pc have e: "getStart p = getStart c" by simp
    with pp pc' have "\<forall>x \<in> set pre. getStart x = getStart c" by (auto intro: antisym)
    then have "filter (\<lambda>x. getStart x = getStart c) pre = pre" by (simp add: filter_id_conv)
    with e show ?thesis by simp
  qed
qed

lemma resume_positioned:
  assumes contract: "sourceContract search getStart s e"
    and xs: "search s e = pre @ c # ys"
    and anch: "anchored getStart s pre c ad"
    and req: "start r = s" "end' r = e"
  shows "pickUpIteration search getStart r (fst ad) (snd ad) =
           ([(fst ad, e)], Inr (positioned ad (c # ys)))"
proof -
  from contract xs have srt: "sorted (map getStart (pre @ c # ys))"
    by (simp add: sourceContract_def)
  then have le: "\<forall>x \<in> set pre. getStart x \<le> getStart c" by (auto simp: sorted_append)
  from anch have a: "fst ad = max s (getStart c)"
    and d: "snd ad = int (length (filter (\<lambda>x. max s (getStart x) = fst ad) pre))"
    by (simp_all add: anchored_def)
  define k where "k = length (filter (\<lambda>x. max s (getStart x) = fst ad) pre)"
  have kk: "nat (snd ad) = k" using d by (simp add: k_def)
  define kept where "kept = (if fst ad = start r then search (fst ad) (end' r)
                   else dropWhile (\<lambda>x. getStart x < fst ad) (search (fst ad) (end' r)))"
  have kept: "\<exists>front. kept = front @ c # ys \<and> length front = k \<and>
      (\<forall>x \<in> set front. fst ad \<noteq> start r \<longrightarrow> getStart x = fst ad)"
  proof (cases "fst ad = s")
    case True
    with a le have "\<forall>x \<in> set pre. max s (getStart x) = fst ad" by auto
    then have "filter (\<lambda>x. max s (getStart x) = fst ad) pre = pre" by (simp add: filter_id_conv)
    then have "k = length pre" by (simp add: k_def)
    with True xs req show ?thesis by (intro exI [of _ pre]) (simp add: kept_def)
  next
    case False
    with a have gc: "fst ad = getStart c" "s < getStart c" by auto
    have "c \<in> set (search s e)" using xs by simp
    with contract gc have "dropWhile (\<lambda>y. getStart y < getStart c) (search (getStart c) e) =
         dropWhile (\<lambda>y. getStart y < getStart c) (search s e)"
      by (simp add: sourceContract_def)
    also have "\<dots> = filter (\<lambda>x. getStart x = getStart c) pre @ c # ys"
      unfolding xs using srt by (rule dropWhile_sorted_split)
    finally have dw: "dropWhile (\<lambda>y. getStart y < getStart c) (search (getStart c) e) =
        filter (\<lambda>x. getStart x = getStart c) pre @ c # ys" .
    have "filter (\<lambda>x. max s (getStart x) = fst ad) pre = filter (\<lambda>x. getStart x = getStart c) pre"
      using gc by (intro filter_cong) auto
    then have "k = length (filter (\<lambda>x. getStart x = getStart c) pre)" by (simp add: k_def)
    with False gc dw req show ?thesis
      by (intro exI [of _ "filter (\<lambda>x. getStart x = getStart c) pre"]) (simp add: kept_def)
  qed
  then obtain front where kf: "kept = front @ c # ys" and lf: "length front = k"
    and af: "\<forall>x \<in> set front. fst ad \<noteq> start r \<longrightarrow> getStart x = fst ad" by blast
  have tk: "take k kept = front" using kf lf by simp
  have dk: "drop k kept = c # ys" using kf lf by simp
  have lk: "k < length kept" using kf lf by simp
  have noassert: "\<not> (fst ad \<noteq> start r \<and> (\<exists>x \<in> set (take k kept). getStart x \<noteq> fst ad))"
    using af tk by auto
  have "pickUpIteration search getStart r (fst ad) (snd ad) =
      ([(fst ad, end' r)],
       Inr \<lparr>searchIterator = drop (k + 2) kept, currentObject = Some (kept ! k),
            nextObject = (if k + 1 < length kept then Some (kept ! (k + 1)) else None),
            searchAnchor = Some (fst ad), distanceFromAnchor = Some (snd ad)\<rparr>)"
    unfolding pickUpIteration_eq Let_def kk kept_def [symmetric]
    using noassert lk by simp
  also have "\<dots> = ([(fst ad, end' r)], Inr (positioned (fst ad, snd ad) (drop k kept)))"
    using positioned_nth [OF lk] by simp
  finally show ?thesis using dk req by simp
qed


section \<open>Pages and the client that follows the tokens\<close>

lemma newIntervalIterator_first:
  assumes "pageToken r = None" "search (start r) (end' r) = c # ys"
  shows "newIntervalIterator search getStart r =
           ([(start r, end' r)], Inr (positioned (max (start r) (getStart c), 0) (c # ys)))"
  using assms
  by (cases ys)
     (auto simp: newIntervalIterator_def initialiseIteration_def nextOrNone_def positioned_def
        max_def Let_def)

lemma newIntervalIterator_empty:
  assumes "pageToken r = None" "search (start r) (end' r) = []"
  shows "newIntervalIterator search getStart r =
           ([(start r, end' r)],
            Inr \<lparr>searchIterator = [], currentObject = None, nextObject = None,
                 searchAnchor = None, distanceFromAnchor = None\<rparr>)"
  using assms by (simp add: newIntervalIterator_def initialiseIteration_def nextOrNone_def)

lemma newIntervalIterator_token:
  assumes "pageToken r = Some (formatToken a d)"
  shows "newIntervalIterator search getStart r = pickUpIteration search getStart r a d"
  using assms by (simp add: newIntervalIterator_def parsePageToken_formatToken)

lemma intervalsGenerator_first:
  assumes "pageToken r = None" "search (start r) (end' r) = c # ys"
  shows "intervalsGenerator search getStart r =
           ([(start r, end' r)],
            Inr (foldr Yield (emit getStart (max (start r) (getStart c), 0) c ys) Stop))"
  using newIntervalIterator_first [of r search c ys getStart] assms
  by (simp add: intervalsGenerator_def iterate_positioned)

lemma intervalsGenerator_empty:
  assumes "pageToken r = None" "search (start r) (end' r) = []"
  shows "intervalsGenerator search getStart r = ([(start r, end' r)], Inr Stop)"
  using newIntervalIterator_empty [of r search getStart] assms
  by (simp add: intervalsGenerator_def iterate_exhausted)

lemma intervalsGenerator_resume:
  assumes "sourceContract search getStart s e" "search s e = pre @ c # ys"
    and "anchored getStart s pre c ad" "start r = s" "end' r = e"
    and "pageToken r = Some (formatToken (fst ad) (snd ad))"
  shows "intervalsGenerator search getStart r =
           ([(fst ad, e)], Inr (foldr Yield (emit getStart ad c ys) Stop))"
  using newIntervalIterator_token [of r "fst ad" "snd ad" search getStart]
    resume_positioned [of search getStart s e pre c ys ad r] assms
  by (simp add: intervalsGenerator_def iterate_positioned)

lemma fillPage_take:
  "\<not> isFull b \<Longrightarrow>
   int (responseLength b + sum_list (map (\<lambda>pr. jl (fst pr)) ps)) \<le> builderMaxLength b \<Longrightarrow>
   \<exists>b'. fillPage jl b tok (foldr Yield ps Stop) =
           Inr (b', if ps = [] then tok
                    else snd (last (take (nat (builderPageSize b) - numElements b) ps))) \<and>
        valueList b' =
          valueList b @ map fst (take (nat (builderPageSize b) - numElements b) ps)"
proof (induction ps arbitrary: b tok)
  case Nil
  show ?case by simp
next
  case (Cons pr rest)
  obtain obj t where pr: "pr = (obj, t)" by (cases pr)
  define b1 where "b1 = addValue jl b obj"
  from Cons.prems pr have b1: "b1 = b\<lparr>numElements := numElements b + 1,
             responseLength := responseLength b + jl obj,
             valueList := valueList b @ [obj]\<rparr>"
    by (simp add: b1_def addValue_def)
  from Cons.prems(1) have nf: "int (numElements b) < builderPageSize b" "\<not> overBudget b"
    by (simp_all add: isFull_def)
  show ?case
  proof (cases "isFull b1")
    case True
    with nf b1 have "nat (builderPageSize b) - numElements b = 1"
      by (simp add: isFull_def)
    with True pr b1 show ?thesis by (simp add: b1_def [symmetric])
  next
    case False
    with b1 have lt: "int (numElements b) + 1 < builderPageSize b" by (simp add: isFull_def)
    then obtain k where k: "nat (builderPageSize b) - numElements b = Suc (Suc k)"
      by (cases "nat (builderPageSize b) - numElements b"; cases "nat (builderPageSize b) - numElements b - 1") auto
    then have k1: "nat (builderPageSize b1) - numElements b1 = Suc k" by (simp add: b1)
    have "int (responseLength b1 + sum_list (map (\<lambda>pr. jl (fst pr)) rest)) \<le> builderMaxLength b1"
      using Cons.prems(2) pr by (simp add: b1)
    from Cons.IH [OF False this, of t] obtain b' where
      f: "fillPage jl b1 t (foldr Yield rest Stop) =
           Inr (b', if rest = [] then t else snd (last (take (Suc k) rest)))"
      and v: "valueList b' = valueList b1 @ map fst (take (Suc k) rest)"
      unfolding k1 by blast
    have "take (Suc k) rest = [] \<longleftrightarrow> rest = []" by (cases rest) simp_all
    with f v False pr k show ?thesis
      by (simp add: b1_def [symmetric]) (simp add: b1)
  qed
qed

lemma runSearchRequest_page:
  assumes ps: "pageSize r = Some p" "0 < p"
    and gen: "objectGenerator (r\<lparr>pageSize := Some p\<rparr>) = (qs, Inr (foldr Yield ps Stop))"
    and budget: "int (sum_list (map (\<lambda>pr. jl (fst pr)) ps)) \<le> maxResponseLength backend"
  shows "runSearchRequest backend jl objectGenerator r =
           (qs, Inr \<lparr>responseValues = map fst (take (nat p) ps),
                     nextPageToken = (if ps = [] then None
                                      else snd (last (take (nat p) ps)))\<rparr>)"
proof -
  define b0 :: "'a SearchResponseBuilder"
    where "b0 = newSearchResponseBuilder p (maxResponseLength backend)"
  have "\<not> isFull b0" using ps(2) by (simp add: b0_def newSearchResponseBuilder_def isFull_def)
  moreover have "int (responseLength b0 + sum_list (map (\<lambda>pr. jl (fst pr)) ps)) \<le> builderMaxLength b0"
    using budget by (simp add: b0_def newSearchResponseBuilder_def)
  ultimately obtain b' where
    f: "fillPage jl b0 None (foldr Yield ps Stop) =
           Inr (b', if ps = [] then None
                    else snd (last (take (nat (builderPageSize b0) - numElements b0) ps)))"
    and v: "valueList b' =
          valueList b0 @ map fst (take (nat (builderPageSize b0) - numElements b0) ps)"
    using fillPage_take [of b0 jl ps None] by blast
  have e: "nat (builderPageSize b0) - numElements b0 = nat p" "valueList b0 = []"
    by (simp_all add: b0_def newSearchResponseBuilder_def)
  show ?thesis
    using ps gen f v unfolding e
    by (simp add: runSearchRequest_def b0_def [symmetric] getResponse_def setNextPageToken_def)
qed

lemma intervalPage_positioned:
  assumes gen: "intervalsGenerator search getStart (r\<lparr>pageToken := tok, pageSize := Some p\<rparr>) =
             (qs, Inr (foldr Yield (emit getStart ad c ys) Stop))"
    and ps: "pageSize r = Some p" "0 < p"
    and budget: "int (sum_list (map jl (c # ys))) \<le> maxResponseLength backend"
  shows "intervalPage backend jl search getStart r tok =
           Inr \<lparr>responseValues = take (nat p) (c # ys),
                nextPageToken =
                  (if nat p \<le> length ys
                   then Some (formatToken
                          (fst (foldl (anchorStep getStart) ad (take (nat p) ys)))
                          (snd (foldl (anchorStep getStart) ad (take (nat p) ys))))
                   else None)\<rparr>"
proof -
  have "map (\<lambda>pr. jl (fst pr)) (emit getStart ad c ys) = map jl (map fst (emit getStart ad c ys))"
    by (simp add: comp_def)
  then have m: "map (\<lambda>pr. jl (fst pr)) (emit getStart ad c ys) = map jl (c # ys)"
    by (simp only: map_fst_emit)
  have "runSearchRequest backend jl (intervalsGenerator search getStart) (r\<lparr>pageToken := tok\<rparr>) =
      (qs, Inr \<lparr>responseValues = map fst (take (nat p) (emit getStart ad c ys)),
                nextPageToken = (if emit getStart ad c ys = [] then None
                                 else snd (last (take (nat p) (emit getStart ad c ys))))\<rparr>)"
    using ps gen budget by (intro runSearchRequest_page) (simp_all add: m)
  moreover have "map fst (take (nat p) (emit getStart ad c ys)) = take (nat p) (c # ys)"
    by (simp only: take_map [symmetric] map_fst_emit)
  moreover have "0 < nat p" using ps by simp
  ultimately show ?thesis
    by (simp add: intervalPage_def emit_nonempty last_take_emit)
qed

lemma drivePages_positioned:
  assumes contract: "sourceContract search getStart s e"
    and req: "start r = s" "end' r = e" "pageSize r = Some p" "0 < p"
    and budget: "withinBudget backend jl (search s e)"
  shows "search s e = pre @ c # ys \<Longrightarrow> anchored getStart s pre c ad \<Longrightarrow>
     intervalsGenerator search getStart (r\<lparr>pageToken := tok, pageSize := Some p\<rparr>) =
       (qs, Inr (foldr Yield (emit getStart ad c ys) Stop)) \<Longrightarrow>
     length ys < fuel \<Longrightarrow>
     drivePages fuel (intervalPage backend jl search getStart r) tok = Some (Inr (c # ys))"
proof (induction fuel arbitrary: pre c ys ad tok qs)
  case 0
  then show ?case by simp
next
  case (Suc fuel)
  define k where "k = nat p"
  have k: "0 < k" using req(4) by (simp add: k_def)
  have "sum_list (map jl (c # ys)) \<le> sum_list (map jl (search s e))"
    unfolding Suc.prems(1) by simp
  with budget have b: "int (sum_list (map jl (c # ys))) \<le> maxResponseLength backend"
    by (simp add: withinBudget_def)
  define ad' where "ad' = foldl (anchorStep getStart) ad (take k ys)"
  have page: "intervalPage backend jl search getStart r tok =
      Inr \<lparr>responseValues = take k (c # ys),
           nextPageToken = (if k \<le> length ys then Some (formatToken (fst ad') (snd ad'))
                            else None)\<rparr>"
    unfolding k_def ad'_def using Suc.prems(3) req(3,4) b by (rule intervalPage_positioned)
  show ?case
  proof (cases "k \<le> length ys")
    case False
    then have "take k (c # ys) = c # ys" by simp
    with page False show ?thesis by simp
  next
    case True
    define c' where "c' = (c # ys) ! k"
    define ys' where "ys' = drop (Suc k) (c # ys)"
    have dr: "drop k (c # ys) = c' # ys'"
      unfolding c'_def ys'_def using True by (simp add: Cons_nth_drop_Suc del: drop_Suc_Cons nth_Cons_Suc)
    have split: "search s e = (pre @ take k (c # ys)) @ c' # ys'"
      unfolding Suc.prems(1) dr [symmetric] by simp
    from contract have "sorted (map getStart (pre @ c # ys))"
      by (simp add: sourceContract_def Suc.prems(1))
    then have anch: "anchored getStart s (pre @ take k (c # ys)) c' ad'"
      unfolding c'_def ad'_def using Suc.prems(2) True by (rule anchored_foldl)
    have gen: "intervalsGenerator search getStart
          (r\<lparr>pageToken := Some (formatToken (fst ad') (snd ad')), pageSize := Some p\<rparr>) =
        ([(fst ad', e)], Inr (foldr Yield (emit getStart ad' c' ys') Stop))"
      using contract split anch by (rule intervalsGenerator_resume) (simp_all add: req)
    have "length ys' < fuel" using Suc.prems(4) k True by (simp add: ys'_def)
    with Suc.IH [OF split anch gen]
    have "drivePages fuel (intervalPage backend jl search getStart r)
            (Some (formatToken (fst ad') (snd ad'))) = Some (Inr (c' # ys'))" .
    moreover have "take k (c # ys) @ c' # ys' = c # ys"
      unfolding dr [symmetric] by (rule append_take_drop_id)
    ultimately show ?thesis using page True by simp
  qed
qed

lemma drivePages_all:
  assumes contract: "sourceContract search getStart (start r) (end' r)"
    and req: "pageSize r = Some p" "0 < p"
    and budget: "withinBudget backend jl (search (start r) (end' r))"
    and fuel: "length (search (start r) (end' r)) \<le> fuel"
  shows "drivePages (Suc fuel) (intervalPage backend jl search getStart r) None =
           Some (Inr (search (start r) (end' r)))"
proof (cases "search (start r) (end' r)")
  case Nil
  have g: "intervalsGenerator search getStart (r\<lparr>pageToken := None, pageSize := Some p\<rparr>) =
      ([(start r, end' r)], Inr (foldr Yield [] Stop))"
    using intervalsGenerator_empty [of "r\<lparr>pageToken := None, pageSize := Some p\<rparr>" search getStart]
      Nil by simp
  have "runSearchRequest backend jl (intervalsGenerator search getStart)
      (r\<lparr>pageToken := None\<rparr>) =
      ([(start r, end' r)], Inr \<lparr>responseValues = [], nextPageToken = None\<rparr>)"
    using runSearchRequest_page [of "r\<lparr>pageToken := None\<rparr>" p
        "intervalsGenerator search getStart" "[(start r, end' r)]" "[]" jl backend] req g budget Nil
    by (simp add: withinBudget_def)
  with Nil show ?thesis by (simp add: intervalPage_def)
next
  case (Cons c ys)
  have gen: "intervalsGenerator search getStart (r\<lparr>pageToken := None, pageSize := Some p\<rparr>) =
      ([(start r, end' r)],
       Inr (foldr Yield (emit getStart (max (start r) (getStart c), 0) c ys) Stop))"
    using intervalsGenerator_first [of "r\<lparr>pageToken := None, pageSize := Some p\<rparr>" search c ys getStart]
      Cons by simp
  have anch: "anchored getStart (start r) [] c (max (start r) (getStart c), 0)"
    by (simp add: anchored_def)
  have split: "search (start r) (end' r) = [] @ c # ys" using Cons by simp
  have "length ys < Suc fuel" using fuel Cons by simp
  then have "drivePages (Suc fuel) (intervalPage backend jl search getStart r) None =
      Some (Inr (c # ys))"
    by (rule drivePages_positioned [OF contract refl refl req budget split anch gen])
  then show ?thesis unfolding Cons .
qed

lemma single_page_all:
  assumes req: "pageSize r = Some q" "0 < q"
    and budget: "withinBudget backend jl (search (start r) (end' r))"
    and large: "int (length (search (start r) (end' r))) \<le> q"
  shows "intervalPage backend jl search getStart r None =
           Inr \<lparr>responseValues = search (start r) (end' r), nextPageToken = None\<rparr>"
proof (cases "search (start r) (end' r)")
  case Nil
  have g: "intervalsGenerator search getStart (r\<lparr>pageToken := None, pageSize := Some q\<rparr>) =
      ([(start r, end' r)], Inr (foldr Yield [] Stop))"
    using intervalsGenerator_empty [of "r\<lparr>pageToken := None, pageSize := Some q\<rparr>" search getStart]
      Nil by simp
  have "runSearchRequest backend jl (intervalsGenerator search getStart)
      (r\<lparr>pageToken := None\<rparr>) =
      ([(start r, end' r)], Inr \<lparr>responseValues = [], nextPageToken = None\<rparr>)"
    using runSearchRequest_page [of "r\<lparr>pageToken := None\<rparr>" q
        "intervalsGenerator search getStart" "[(start r, end' r)]" "[]" jl backend] req g budget Nil
    by (simp add: withinBudget_def)
  with Nil show ?thesis by (simp add: intervalPage_def)
next
  case (Cons c ys)
  have gen: "intervalsGenerator search getStart (r\<lparr>pageToken := None, pageSize := Some q\<rparr>) =
      ([(start r, end' r)],
       Inr (foldr Yield (emit getStart (max (start r) (getStart c), 0) c ys) Stop))"
    using intervalsGenerator_first [of "r\<lparr>pageToken := None, pageSize := Some q\<rparr>" search c ys getStart]
      Cons by simp
  have b: "int (sum_list (map jl (c # ys))) \<le> maxResponseLength backend"
    using budget Cons by (simp add: withinBudget_def)
  have "\<not> nat q \<le> length ys" using large Cons by simp
  moreover have "take (nat q) (c # ys) = c # ys" using large Cons by simp
  ultimately show ?thesis
    using intervalPage_positioned [OF gen req b] Cons by simp
qed

lemma emit_token_anchored:
  "sorted (map getStart (pre @ c # ys)) \<Longrightarrow> anchored getStart s pre c ad \<Longrightarrow>
   (obj, Some tok) \<in> set (emit getStart ad c ys) \<Longrightarrow>
   \<exists>pre' c' ys' ad'. pre @ c # ys = pre' @ c' # ys' \<and> anchored getStart s pre' c' ad' \<and>
      tok = formatToken (fst ad') (snd ad')"
proof (induction ys arbitrary: pre c ad)
  case Nil
  then show ?case by simp
next
  case (Cons y ys)
  have st: "anchored getStart s (pre @ [c]) y (anchorStep getStart ad y)"
    using Cons.prems(1,2) by (rule anchored_step)
  from Cons.prems(3) consider
    (head) "tok = formatToken (fst (anchorStep getStart ad y)) (snd (anchorStep getStart ad y))"
    | (tail) "(obj, Some tok) \<in> set (emit getStart (anchorStep getStart ad y) y ys)"
    by auto
  then show ?case
  proof cases
    case head
    have "pre @ c # y # ys = (pre @ [c]) @ y # ys" by simp
    with st head show ?thesis by blast
  next
    case tail
    have srt: "sorted (map getStart ((pre @ [c]) @ y # ys))" using Cons.prems(1) by simp
    from Cons.IH [OF srt st tail] show ?thesis by simp
  qed
qed

lemma yielded_foldr: "yielded (foldr Yield ps Stop) = ps"
  by (induction ps) simp_all

lemma issued_anchored:
  assumes contract: "sourceContract search getStart (start r) (end' r)"
    and iss: "issued search getStart r tok"
  shows "\<exists>pre c ys ad. search (start r) (end' r) = pre @ c # ys \<and>
           anchored getStart (start r) pre c ad \<and> tok = formatToken (fst ad) (snd ad)"
  using iss
proof (induction rule: issued.induct)
  case (first g obj token)
  show ?case
  proof (cases "search (start r) (end' r)")
    case Nil
    then have "intervalsGenerator search getStart (r\<lparr>pageToken := None\<rparr>) =
        ([(start r, end' r)], Inr Stop)"
      using intervalsGenerator_empty [of "r\<lparr>pageToken := None\<rparr>" search getStart] by simp
    with first show ?thesis by simp
  next
    case (Cons c ys)
    then have "intervalsGenerator search getStart (r\<lparr>pageToken := None\<rparr>) =
        ([(start r, end' r)],
         Inr (foldr Yield (emit getStart (max (start r) (getStart c), 0) c ys) Stop))"
      using intervalsGenerator_first [of "r\<lparr>pageToken := None\<rparr>" search c ys getStart] by simp
    with first have m: "(obj, Some token) \<in> set (emit getStart (max (start r) (getStart c), 0) c ys)"
      by (auto simp: yielded_foldr)
    have srt: "sorted (map getStart ([] @ c # ys))"
      using contract Cons by (simp add: sourceContract_def)
    have anch: "anchored getStart (start r) [] c (max (start r) (getStart c), 0)"
      by (simp add: anchored_def)
    from emit_token_anchored [OF srt anch m] Cons show ?thesis by simp
  qed
next
  case (resumed token g obj token')
  then obtain pre c ys ad where xs: "search (start r) (end' r) = pre @ c # ys"
    and anch: "anchored getStart (start r) pre c ad"
    and tok: "token = formatToken (fst ad) (snd ad)" by blast
  have "intervalsGenerator search getStart (r\<lparr>pageToken := Some token\<rparr>) =
      ([(fst ad, end' r)], Inr (foldr Yield (emit getStart ad c ys) Stop))"
    using contract xs anch by (rule intervalsGenerator_resume) (simp_all add: tok)
  with resumed(2,3) have m: "(obj, Some token') \<in> set (emit getStart ad c ys)"
    by (auto simp: yielded_foldr)
  have srt: "sorted (map getStart (pre @ c # ys))"
    using contract xs by (simp add: sourceContract_def)
  from emit_token_anchored [OF srt anch m] xs show ?case by simp
qed

lemma issued_resumes:
  assumes contract: "sourceContract search getStart (start r) (end' r)"
    and iss: "issued search getStart r tok"
  shows "\<exists>it. snd (newIntervalIterator search getStart (r\<lparr>pageToken := Some tok\<rparr>)) = Inr it"
proof -
  from issued_anchored [OF contract iss] obtain pre c ys ad
    where xs: "search (start r) (end' r) = pre @ c # ys"
      and anch: "anchored getStart (start r) pre c ad"
      and tok: "tok = formatToken (fst ad) (snd ad)" by blast
  have "pickUpIteration search getStart (r\<lparr>pageToken := Some tok\<rparr>) (fst ad) (snd ad) =
      ([(fst ad, end' r)], Inr (positioned ad (c # ys)))"
    using contract xs anch by (rule resume_positioned) simp_all
  then show ?thesis
    using newIntervalIterator_token [of "r\<lparr>pageToken := Some tok\<rparr>" "fst ad" "snd ad" search getStart]
    by (simp add: tok)
qed

lemma runSearchRequest_generator_error:
  assumes "objectGenerator (r\<lparr>pageSize := Some limit\<rparr>) = (qs, Inl e)"
    and "limit = (case pageSize r of None \<Rightarrow> defaultPageSize backend | Some n \<Rightarrow> n)"
    and "0 < limit"
  shows "runSearchRequest backend jl objectGenerator r = (qs, Inl e)"
  using assms by (simp add: runSearchRequest_def Let_def)

lemma intervalsGenerator_error:
  "newIntervalIterator search getStart r = (qs, Inl e) \<Longrightarrow>
   intervalsGenerator search getStart r = (qs, Inl e)"
  by (simp add: intervalsGenerator_def)

lemma initialiseIteration_pageSize:
  "initialiseIteration search getStart (r\<lparr>pageSize := n\<rparr>) =
     initialiseIteration search getStart r"
  by (simp add: initialiseIteration_def Let_def split: prod.splits option.splits)

lemma pickUpIteration_pageSize:
  "pickUpIteration search getStart (r\<lparr>pageSize := n\<rparr>) a k =
     pickUpIteration search getStart r a k"
  by (simp add: pickUpIteration_eq)

lemma newIntervalIterator_pageSize:
  "newIntervalIterator search getStart (r\<lparr>pageSize := n\<rparr>) = newIntervalIterator search getStart r"
  by (simp add: newIntervalIterator_def initialiseIteration_pageSize pickUpIteration_pageSize
      split: option.splits sum.splits list.splits)


section \<open>The claims about interval pagination\<close>

lemma fetch_tieFile: "fetch tieFile 0 100 = tieFile"
  by (simp add: fetch_def tieFile_def)

lemma contract_tieFile: "sourceContract (fetch tieFile) intervalStart 0 100"
  by (simp add: sourceContract_def fetch_def tieFile_def intervalStart_def)

lemma budget_tieFile: "withinBudget mebibyte nameLength (fetch tieFile 0 100)"
  by (simp add: withinBudget_def fetch_tieFile) (simp add: tieFile_def nameLength_def mebibyte_def)

lemma window_simps:
  "start (window n t) = 0" "end' (window n t) = 100" "pageToken (window n t) = t"
  "pageSize (window n t) = n"
  by (simp_all add: window_def)

text \<open>
  Claim C1. For a source that keeps the contract (objects in non-decreasing order of
  start, any number of them sharing a start) and a page size \<open>p \<ge> 1\<close>, with the objects
  within the size budget: a client that starts without a token and follows each page's
  continuation token receives, pages concatenated, exactly the sequence of the source, each
  object once and in order, whenever it may make more requests than there are objects; and
  a single request whose page size is at least the number of objects (and at least 1)
  returns the same sequence with no token.
\<close>

theorem chunking_equivalence:
  assumes "sourceContract search getStart (start r) (end' r)"
    and "pageSize r = Some p" and "1 \<le> p"
    and "withinBudget backend jsonLength (search (start r) (end' r))"
  shows "(\<forall>fuel. length (search (start r) (end' r)) < fuel \<longrightarrow>
            drivePages fuel (intervalPage backend jsonLength search getStart r) None =
              Some (Inr (search (start r) (end' r)))) \<and>
         (\<forall>q. 1 \<le> q \<and> int (length (search (start r) (end' r))) \<le> q \<longrightarrow>
            intervalPage backend jsonLength search getStart (r\<lparr>pageSize := Some q\<rparr>) None =
              Inr \<lparr>responseValues = search (start r) (end' r), nextPageToken = None\<rparr>)"
proof (intro conjI allI impI)
  fix fuel
  assume f: "length (search (start r) (end' r)) < fuel"
  then obtain fuel' where s: "fuel = Suc fuel'" by (cases fuel) auto
  from assms(3) have p: "0 < p" by simp
  from f s have "length (search (start r) (end' r)) \<le> fuel'" by simp
  with drivePages_all [OF assms(1,2) p assms(4)] s
  show "drivePages fuel (intervalPage backend jsonLength search getStart r) None =
      Some (Inr (search (start r) (end' r)))" by simp
next
  fix q
  assume q: "1 \<le> q \<and> int (length (search (start r) (end' r))) \<le> q"
  then have "0 < q" by simp
  with single_page_all [of "r\<lparr>pageSize := Some q\<rparr>" q backend jsonLength search getStart] assms(4) q
  show "intervalPage backend jsonLength search getStart (r\<lparr>pageSize := Some q\<rparr>) None =
      Inr \<lparr>responseValues = search (start r) (end' r), nextPageToken = None\<rparr>" by simp
qed

theorem chunking_equivalence_witness:
  "sourceContract (fetch tieFile) intervalStart 0 100 \<and>
   withinBudget mebibyte nameLength (fetch tieFile 0 100) \<and>
   drivePages 5 (intervalPage mebibyte nameLength (fetch tieFile) intervalStart
      (window (Some 2) None)) None = Some (Inr tieFile) \<and>
   intervalPage mebibyte nameLength (fetch tieFile) intervalStart (window (Some 4) None) None =
     Inr \<lparr>responseValues = tieFile, nextPageToken = None\<rparr>"
proof -
  have c: "sourceContract (fetch tieFile) intervalStart
      (start (window (Some 2) None)) (end' (window (Some 2) None))"
    by (simp add: window_simps contract_tieFile)
  have b: "withinBudget mebibyte nameLength
      (fetch tieFile (start (window (Some 2) None)) (end' (window (Some 2) None)))"
    by (simp add: window_simps budget_tieFile)
  have l: "length tieFile = 4" by (simp add: tieFile_def)
  have w: "(window (Some 2) None)\<lparr>pageSize := Some 4\<rparr> = window (Some 4) None"
    by (simp add: window_def)
  from chunking_equivalence [OF c _ _ b, of 2]
  have "(\<forall>fuel. length tieFile < fuel \<longrightarrow>
            drivePages fuel (intervalPage mebibyte nameLength (fetch tieFile) intervalStart
              (window (Some 2) None)) None = Some (Inr tieFile)) \<and>
         (\<forall>q. 1 \<le> q \<and> int (length tieFile) \<le> q \<longrightarrow>
            intervalPage mebibyte nameLength (fetch tieFile) intervalStart
              ((window (Some 2) None)\<lparr>pageSize := Some q\<rparr>) None =
              Inr \<lparr>responseValues = tieFile, nextPageToken = None\<rparr>)"
    by (simp add: window_simps fetch_tieFile)
  then have "drivePages 5 (intervalPage mebibyte nameLength (fetch tieFile) intervalStart
              (window (Some 2) None)) None = Some (Inr tieFile)"
    and "intervalPage mebibyte nameLength (fetch tieFile) intervalStart
              ((window (Some 2) None)\<lparr>pageSize := Some 4\<rparr>) None =
              Inr \<lparr>responseValues = tieFile, nextPageToken = None\<rparr>"
    using l by simp_all
  then show ?thesis using contract_tieFile budget_tieFile by (simp add: w)
qed

text \<open>
  Claim C2. Resuming from the token \<open>anchor:skip\<close> queries the source over
  \<open>(anchor, end)\<close>. If the anchor is the request's start, \<open>skip\<close> results are skipped
  unconditionally; otherwise the results that start before the anchor are discarded first
  and then \<open>skip\<close> results are skipped, each of which must start at the anchor. The
  result after them becomes the current object and the one after that the lookahead. A
  negative \<open>skip\<close> skips nothing. The other outcomes are the assertion failure and the
  exhaustion of the source.
\<close>

theorem pickUpIteration_resume:
  "pickUpIteration search getStart request anchor skip =
     ([(anchor, end' request)],
      (let results = search anchor (end' request);
           kept = (if anchor = start request then results
                   else dropWhile (\<lambda>x. getStart x < anchor) results)
       in if anchor \<noteq> start request \<and> (\<exists>x \<in> set (take (nat skip) kept). getStart x \<noteq> anchor)
          then Inl AssertionError
          else if length kept \<le> nat skip then Inl StopIteration
          else Inr \<lparr>searchIterator = drop (nat skip + 2) kept,
                    currentObject = Some (kept ! nat skip),
                    nextObject = (if nat skip + 1 < length kept
                                  then Some (kept ! (nat skip + 1)) else None),
                    searchAnchor = Some anchor, distanceFromAnchor = Some skip\<rparr>))"
  by (rule pickUpIteration_eq)

theorem pickUpIteration_resume_witness:
  "pickUpIteration (fetch groupFile) intervalStart (window (Some 3) (Some ''20:1'')) 20 1 =
     ([(20, 100)],
      Inr \<lparr>searchIterator = [], currentObject = Some (''d'', 20, 30),
           nextObject = Some (''e'', 20, 30), searchAnchor = Some 20,
           distanceFromAnchor = Some 1\<rparr>)"
  using pickUpIteration_resume [of "fetch groupFile" intervalStart
      "window (Some 3) (Some ''20:1'')" 20 1]
  by (simp add: window_simps fetch_def groupFile_def intervalStart_def)

text \<open>
  Claim C5. Without a page token the iterator queries the source with the request's start
  and end; when there is a first result, the anchor is its start if that is strictly later
  than the request's start and the request's start otherwise, and the distance from the
  anchor is 0.
\<close>

theorem initialise_anchor:
  assumes "pageToken r = None" and "search (start r) (end' r) = x # rest"
  shows "newIntervalIterator search getStart r =
           ([(start r, end' r)],
            Inr \<lparr>searchIterator = drop 1 rest, currentObject = Some x,
                 nextObject = (case rest of [] \<Rightarrow> None | y # _ \<Rightarrow> Some y),
                 searchAnchor = Some (if start r < getStart x then getStart x else start r),
                 distanceFromAnchor = Some 0\<rparr>)"
  using assms
  by (cases rest)
     (simp_all add: newIntervalIterator_def initialiseIteration_def nextOrNone_def Let_def)

theorem initialise_anchor_witness:
  "newIntervalIterator (fetch tieFile) intervalStart (window None None) =
     ([(0, 100)],
      Inr \<lparr>searchIterator = [(''c'', 5, 9), (''d'', 7, 9)], currentObject = Some (''a'', 5, 6),
           nextObject = Some (''b'', 5, 9), searchAnchor = Some 5,
           distanceFromAnchor = Some 0\<rparr>)"
proof -
  have "fetch tieFile (start (window None None)) (end' (window None None)) =
      (''a'', 5, 6) # [(''b'', 5, 9), (''c'', 5, 9), (''d'', 7, 9)]"
    by (simp add: window_simps fetch_def tieFile_def)
  with initialise_anchor [of "window None None" "fetch tieFile" "(''a'', 5, 6)"
      "[(''b'', 5, 9), (''c'', 5, 9), (''d'', 7, 9)]" intervalStart]
  show ?thesis by (simp add: window_simps intervalStart_def)
qed

text \<open>
  Claim C7. An absent page size is replaced by the configured default, and a page size
  (given or defaulted) that is not positive is rejected with \<open>BadPageSizeException\<close> before
  the object generator is called: whatever the generator, no source query is made.
\<close>

theorem runSearchRequest_pageSize:
  "(pageSize r = None \<longrightarrow>
      runSearchRequest backend jsonLength objectGenerator r =
      runSearchRequest backend jsonLength objectGenerator
        (r\<lparr>pageSize := Some (defaultPageSize backend)\<rparr>)) \<and>
   ((case pageSize r of None \<Rightarrow> defaultPageSize backend | Some n \<Rightarrow> n) \<le> 0 \<longrightarrow>
      runSearchRequest backend jsonLength objectGenerator r =
        ([], Inl (BadPageSizeException
                    (case pageSize r of None \<Rightarrow> defaultPageSize backend | Some n \<Rightarrow> n))))"
  by (simp add: runSearchRequest_def Let_def)

theorem runSearchRequest_pageSize_witness:
  "runSearchRequest mebibyte nameLength (intervalsGenerator (fetch tieFile) intervalStart)
     (window (Some 0) None) = ([], Inl (BadPageSizeException 0)) \<and>
   runSearchRequest mebibyte nameLength (intervalsGenerator (fetch tieFile) intervalStart)
     (window None None) =
   runSearchRequest mebibyte nameLength (intervalsGenerator (fetch tieFile) intervalStart)
     (window (Some 100) None)"
proof -
  have w: "(window None None)\<lparr>pageSize := Some (defaultPageSize mebibyte)\<rparr> =
      window (Some 100) None"
    by (simp add: window_def mebibyte_def)
  from runSearchRequest_pageSize [of "window (Some 0) None" mebibyte nameLength
      "intervalsGenerator (fetch tieFile) intervalStart"]
    runSearchRequest_pageSize [of "window None None" mebibyte nameLength
      "intervalsGenerator (fetch tieFile) intervalStart"]
  show ?thesis by (simp add: window_simps w)
qed

text \<open>
  Claim C10. With a well-formed two-field token, if the query over \<open>(anchor, end)\<close> yields
  nothing, or the anchor is the request's start and the query yields fewer than
  \<open>skip + 1\<close> results, the construction of the iterator raises \<open>StopIteration\<close>, and
  \<^verbatim>\<open>runSearchRequest\<close> lets it through: neither a \<open>BadPageTokenException\<close> nor an empty
  last page.
\<close>

theorem resume_raises_StopIteration:
  assumes "pageToken r = Some token" and "parsePageToken token 2 = Inr [anchor, skip]"
    and "search anchor (end' r) = [] \<or>
         (anchor = start r \<and> length (search anchor (end' r)) < nat skip + 1)"
    and "0 < (case pageSize r of None \<Rightarrow> defaultPageSize backend | Some n \<Rightarrow> n)"
  shows "newIntervalIterator search getStart r = ([(anchor, end' r)], Inl StopIteration) \<and>
         runSearchRequest backend jsonLength (intervalsGenerator search getStart) r =
           ([(anchor, end' r)], Inl StopIteration)"
proof -
  have p: "pickUpIteration search getStart r anchor skip = ([(anchor, end' r)], Inl StopIteration)"
    using assms(3)
  proof
    assume "search anchor (end' r) = []"
    then show ?thesis by (simp add: pickUpIteration_def nextOrRaise_def)
  next
    assume "anchor = start r \<and> length (search anchor (end' r)) < nat skip + 1"
    then have "anchor = start r" "length (search (start r) (end' r)) \<le> nat skip" by auto
    then show ?thesis by (simp add: pickUpIteration_eq Let_def)
  qed
  with assms(1,2) have n: "newIntervalIterator search getStart r =
      ([(anchor, end' r)], Inl StopIteration)"
    by (simp add: newIntervalIterator_def)
  define limit where "limit = (case pageSize r of None \<Rightarrow> defaultPageSize backend | Some n \<Rightarrow> n)"
  have g: "intervalsGenerator search getStart (r\<lparr>pageSize := Some limit\<rparr>) =
      ([(anchor, end' r)], Inl StopIteration)"
    using n by (intro intervalsGenerator_error) (simp add: newIntervalIterator_pageSize)
  have "0 < limit" using assms(4) by (simp add: limit_def)
  with g have "runSearchRequest backend jsonLength (intervalsGenerator search getStart) r =
      ([(anchor, end' r)], Inl StopIteration)"
    using runSearchRequest_generator_error [where objectGenerator = "intervalsGenerator search getStart"
        and r = r and limit = limit and qs = "[(anchor, end' r)]" and e = StopIteration
        and backend = backend and jl = jsonLength]
    by (simp add: limit_def)
  with n show ?thesis by simp
qed

theorem resume_raises_StopIteration_witness:
  "runSearchRequest mebibyte nameLength (intervalsGenerator (fetch tieFile) intervalStart)
     (window (Some 2) (Some ''9:0'')) = ([(9, 100)], Inl StopIteration)"
proof -
  have t: "parsePageToken ''9:0'' 2 = Inr [9, 0]"
    by code_simp
  have e: "fetch tieFile 9 (end' (window (Some 2) (Some ''9:0''))) = [] \<or>
      (9 = start (window (Some 2) (Some ''9:0'')) \<and>
       length (fetch tieFile 9 (end' (window (Some 2) (Some ''9:0'')))) < nat 0 + 1)"
    by (simp add: fetch_def tieFile_def window_simps)
  have "0 < (case pageSize (window (Some 2) (Some ''9:0'')) of
      None \<Rightarrow> defaultPageSize mebibyte | Some n \<Rightarrow> n)"
    by (simp add: window_simps)
  with resume_raises_StopIteration [of "window (Some 2) (Some ''9:0'')" "''9:0''" 9 0
      "fetch tieFile" mebibyte intervalStart nameLength] t e
  show ?thesis by (simp add: window_simps)
qed

text \<open>
  Claim C9. On a resume whose anchor is not the request's start, once the results that
  start before the anchor are discarded, each of the \<open>skip\<close> results consumed must start
  at the anchor: if one of them does not, the construction fails with \<open>AssertionError\<close>,
  not with \<open>BadPageTokenException\<close>. Conversely, a token issued by an earlier page over
  unchanged data (a source that keeps the contract) always resumes to an iterator, so the
  assertion does not fire.
\<close>

theorem resume_assertion:
  "(parsePageToken token' 2 = Inr [anchor, skip] \<and> anchor \<noteq> start r \<and>
      (\<exists>x \<in> set (take (nat skip)
          (dropWhile (\<lambda>x. getStart x < anchor) (search anchor (end' r)))).
         getStart x \<noteq> anchor) \<longrightarrow>
      newIntervalIterator search getStart (r\<lparr>pageToken := Some token'\<rparr>) =
        ([(anchor, end' r)], Inl AssertionError) \<and>
      (0 < (case pageSize r of None \<Rightarrow> defaultPageSize backend | Some n \<Rightarrow> n) \<longrightarrow>
         runSearchRequest backend jsonLength (intervalsGenerator search getStart)
           (r\<lparr>pageToken := Some token'\<rparr>) = ([(anchor, end' r)], Inl AssertionError))) \<and>
   (sourceContract search getStart (start r) (end' r) \<and> issued search getStart r token \<longrightarrow>
      (\<exists>it. snd (newIntervalIterator search getStart (r\<lparr>pageToken := Some token\<rparr>)) = Inr it))"
proof (intro conjI impI)
  assume a: "parsePageToken token' 2 = Inr [anchor, skip] \<and> anchor \<noteq> start r \<and>
      (\<exists>x \<in> set (take (nat skip)
          (dropWhile (\<lambda>x. getStart x < anchor) (search anchor (end' r)))).
         getStart x \<noteq> anchor)"
  then have "pickUpIteration search getStart (r\<lparr>pageToken := Some token'\<rparr>)
      anchor skip = ([(anchor, end' r)], Inl AssertionError)"
    by (simp add: pickUpIteration_eq Let_def)
  with a show n: "newIntervalIterator search getStart (r\<lparr>pageToken := Some token'\<rparr>) =
        ([(anchor, end' r)], Inl AssertionError)"
    by (simp add: newIntervalIterator_def)
  assume ps: "0 < (case pageSize r of None \<Rightarrow> defaultPageSize backend | Some n \<Rightarrow> n)"
  define limit where "limit = (case pageSize r of None \<Rightarrow> defaultPageSize backend | Some n \<Rightarrow> n)"
  have g: "intervalsGenerator search getStart (r\<lparr>pageToken := Some token', pageSize := Some limit\<rparr>) =
      ([(anchor, end' r)], Inl AssertionError)"
    using n by (intro intervalsGenerator_error) (simp add: newIntervalIterator_pageSize)
  have "0 < limit" using ps by (simp add: limit_def)
  with g show "runSearchRequest backend jsonLength (intervalsGenerator search getStart)
      (r\<lparr>pageToken := Some token'\<rparr>) = ([(anchor, end' r)], Inl AssertionError)"
    using runSearchRequest_generator_error [where objectGenerator = "intervalsGenerator search getStart"
        and r = "r\<lparr>pageToken := Some token'\<rparr>" and limit = limit
        and qs = "[(anchor, end' r)]" and e = AssertionError
        and backend = backend and jl = jsonLength]
    by (simp add: limit_def)
next
  assume "sourceContract search getStart (start r) (end' r) \<and> issued search getStart r token"
  then show "\<exists>it. snd (newIntervalIterator search getStart (r\<lparr>pageToken := Some token\<rparr>)) = Inr it"
    using issued_resumes by blast
qed

lemma formatToken_numeral:
  "formatToken 5 1 = ''5:1''" "formatToken 5 2 = ''5:2''" "formatToken 5 4 = ''5:4''"
  "formatToken 7 0 = ''7:0''" "formatToken 10 1 = ''10:1''" "formatToken 20 0 = ''20:0''"
  "formatToken 20 1 = ''20:1''" "formatToken 20 2 = ''20:2''"
  by code_simp+

lemma tieFile_stream:
  "intervalsGenerator (fetch tieFile) intervalStart (window n None) =
     ([(0, 100)],
      Inr (Yield ((''a'', 5, 6), Some ''5:1'') (Yield ((''b'', 5, 9), Some ''5:2'')
        (Yield ((''c'', 5, 9), Some ''7:0'') (Yield ((''d'', 7, 9), None) Stop)))))"
proof -
  have "fetch tieFile (start (window n None)) (end' (window n None)) =
      (''a'', 5, 6) # [(''b'', 5, 9), (''c'', 5, 9), (''d'', 7, 9)]"
    by (simp add: window_simps fetch_def tieFile_def)
  with intervalsGenerator_first [of "window n None" "fetch tieFile" "(''a'', 5, 6)"
      "[(''b'', 5, 9), (''c'', 5, 9), (''d'', 7, 9)]" intervalStart]
  show ?thesis
    by (simp add: window_simps intervalStart_def anchorStep_def formatToken_numeral)
qed

theorem resume_assertion_witness:
  "runSearchRequest mebibyte nameLength (intervalsGenerator (fetch tieFile) intervalStart)
     (window (Some 2) (Some ''5:4'')) = ([(5, 100)], Inl AssertionError) \<and>
   issued (fetch tieFile) intervalStart (window (Some 2) None) ''5:2'' \<and>
   (\<exists>it. snd (newIntervalIterator (fetch tieFile) intervalStart
            (window (Some 2) (Some ''5:2''))) = Inr it)"
proof -
  have w: "(window (Some 2) None)\<lparr>pageToken := Some t\<rparr> = window (Some 2) (Some t)"
    "(window (Some 2) None)\<lparr>pageToken := None\<rparr> = window (Some 2) None" for t
    by (simp_all add: window_def)
  have "parsePageToken (formatToken 5 4) 2 = Inr [5, 4]" by (rule parsePageToken_formatToken)
  then have p: "parsePageToken ''5:4'' 2 = Inr [5, 4]" by (simp only: formatToken_numeral)
  have a: "parsePageToken ''5:4'' 2 = Inr [5, 4] \<and> 5 \<noteq> start (window (Some 2) None) \<and>
      (\<exists>x \<in> set (take (nat 4)
          (dropWhile (\<lambda>x. intervalStart x < 5) (fetch tieFile 5 (end' (window (Some 2) None))))).
         intervalStart x \<noteq> 5)"
    using p by (simp add: window_simps fetch_def tieFile_def intervalStart_def)
  have i: "issued (fetch tieFile) intervalStart (window (Some 2) None) ''5:2''"
    by (rule issued.first [where obj = "(''b'', 5, 9)"])
       (simp add: w tieFile_stream)+
  have c: "sourceContract (fetch tieFile) intervalStart (start (window (Some 2) None))
      (end' (window (Some 2) None)) \<and>
      issued (fetch tieFile) intervalStart (window (Some 2) None) ''5:2''"
    using i by (simp add: window_simps contract_tieFile)
  have ps: "0 < (case pageSize (window (Some 2) None) of
      None \<Rightarrow> defaultPageSize mebibyte | Some n \<Rightarrow> n)"
    by (simp add: window_simps)
  from resume_assertion [of "''5:4''" 5 4 "window (Some 2) None" intervalStart "fetch tieFile"
      mebibyte nameLength "''5:2''"] a c ps
  show ?thesis using i by (simp add: w window_simps)
qed

lemma pickUp_kept:
  assumes kept: "(if anchor = start r then search anchor (end' r)
       else dropWhile (\<lambda>x. getStart x < anchor) (search anchor (end' r))) = front @ c # ys"
    and len: "length front = nat skip"
    and eq: "\<forall>x \<in> set front. getStart x = anchor"
  shows "pickUpIteration search getStart r anchor skip =
           ([(anchor, end' r)], Inr (positioned (anchor, skip) (c # ys)))"
proof -
  define k where "k = nat skip"
  define kept where "kept = (if anchor = start r then search anchor (end' r)
       else dropWhile (\<lambda>x. getStart x < anchor) (search anchor (end' r)))"
  have kf: "kept = front @ c # ys" using kept by (simp add: kept_def)
  have lf: "length front = k" using len by (simp add: k_def)
  have kk: "nat skip = k" by (simp add: k_def)
  have tk: "take k kept = front" using kf lf by simp
  have dk: "drop k kept = c # ys" using kf lf by simp
  have lk: "k < length kept" using kf lf by simp
  have noassert: "\<not> (anchor \<noteq> start r \<and> (\<exists>x \<in> set (take k kept). getStart x \<noteq> anchor))"
    using eq tk by auto
  have "pickUpIteration search getStart r anchor skip =
      ([(anchor, end' r)],
       Inr \<lparr>searchIterator = drop (k + 2) kept, currentObject = Some (kept ! k),
            nextObject = (if k + 1 < length kept then Some (kept ! (k + 1)) else None),
            searchAnchor = Some anchor, distanceFromAnchor = Some skip\<rparr>)"
    unfolding pickUpIteration_eq Let_def kk kept_def [symmetric]
    using noassert lk by simp
  also have "\<dots> = ([(anchor, end' r)], Inr (positioned (anchor, skip) (drop k kept)))"
    using positioned_nth [OF lk] by simp
  finally show ?thesis using dk by simp
qed

lemma intervalsGenerator_kept:
  assumes tok: "pageToken r = Some (formatToken anchor skip)"
    and kept: "(if anchor = start r then search anchor (end' r)
       else dropWhile (\<lambda>x. getStart x < anchor) (search anchor (end' r))) = front @ c # ys"
    and len: "length front = nat skip"
    and eq: "\<forall>x \<in> set front. getStart x = anchor"
  shows "intervalsGenerator search getStart r =
           ([(anchor, end' r)], Inr (foldr Yield (emit getStart (anchor, skip) c ys) Stop))"
  using newIntervalIterator_token [OF tok, of search getStart]
    pickUp_kept [of anchor r search getStart front c ys skip] kept len eq
  by (simp add: intervalsGenerator_def iterate_positioned)

lemma two_group_pages_lemma:
  assumes xs: "search (start r) (end' r) = [i0, i1, i2, i3, i4]"
    and starts: "map getStart [i0, i1, i2, i3, i4] = [10, 10, 20, 20, 20]"
    and st: "start r < 20"
    and requery: "dropWhile (\<lambda>x. getStart x < 20) (search 20 (end' r)) = [i2, i3, i4]"
    and ps: "pageSize r = Some 3"
    and budget: "withinBudget backend jsonLength [i0, i1, i2, i3, i4]"
  shows "intervalPage backend jsonLength search getStart r None =
           Inr \<lparr>responseValues = [i0, i1, i2], nextPageToken = Some ''20:1''\<rparr> \<and>
         intervalPage backend jsonLength search getStart r (Some ''20:1'') =
           Inr \<lparr>responseValues = [i3, i4], nextPageToken = None\<rparr>"
proof
  from starts have g: "getStart i0 = 10" "getStart i1 = 10" "getStart i2 = 20"
    "getStart i3 = 20" "getStart i4 = 20" by simp_all
  have gen1: "intervalsGenerator search getStart (r\<lparr>pageToken := None, pageSize := Some 3\<rparr>) =
      ([(start r, end' r)],
       Inr (foldr Yield (emit getStart (max (start r) (getStart i0), 0) i0 [i1, i2, i3, i4]) Stop))"
    using intervalsGenerator_first [of "r\<lparr>pageToken := None, pageSize := Some 3\<rparr>" search
        i0 "[i1, i2, i3, i4]" getStart] xs by simp
  have b1: "int (sum_list (map jsonLength (i0 # [i1, i2, i3, i4]))) \<le> maxResponseLength backend"
    using budget by (simp add: withinBudget_def)
  have f: "foldl (anchorStep getStart) (max (start r) (getStart i0), 0) (take (nat 3) [i1, i2, i3, i4])
      = (20, 1)"
    using st by (simp add: anchorStep_def g max_def)
  from intervalPage_positioned [OF gen1 ps _ b1]
  show "intervalPage backend jsonLength search getStart r None =
           Inr \<lparr>responseValues = [i0, i1, i2], nextPageToken = Some ''20:1''\<rparr>"
    unfolding f by (simp add: formatToken_numeral)
  have kept: "(if 20 = start r then search 20 (end' r)
       else dropWhile (\<lambda>x. getStart x < 20) (search 20 (end' r))) = [i2] @ i3 # [i4]"
    using st requery by simp
  have gen2: "intervalsGenerator search getStart
        (r\<lparr>pageToken := Some ''20:1'', pageSize := Some 3\<rparr>) =
      ([(20, end' r)], Inr (foldr Yield (emit getStart (20, 1) i3 [i4]) Stop))"
    using intervalsGenerator_kept [of "r\<lparr>pageToken := Some ''20:1'', pageSize := Some 3\<rparr>"
        20 1 search getStart "[i2]" i3 "[i4]"] kept
    by (simp add: formatToken_numeral g cong: if_cong)
  have b2: "int (sum_list (map jsonLength (i3 # [i4]))) \<le> maxResponseLength backend"
    using budget by (simp add: withinBudget_def)
  from intervalPage_positioned [OF gen2 ps _ b2]
  show "intervalPage backend jsonLength search getStart r (Some ''20:1'') =
           Inr \<lparr>responseValues = [i3, i4], nextPageToken = None\<rparr>"
    by simp
qed

lemma tie_pages_lemma:
  assumes xs: "search (start r) (end' r) = [i0, i1, i2, i3]"
    and starts: "map getStart [i0, i1, i2, i3] = [5, 5, 5, 7]"
    and st: "start r \<le> 5"
    and requery: "dropWhile (\<lambda>x. getStart x < 5) (search 5 (end' r)) = [i0, i1, i2, i3]"
    and ps: "pageSize r = Some 2"
    and budget: "withinBudget backend jsonLength [i0, i1, i2, i3]"
  shows "intervalPage backend jsonLength search getStart r None =
           Inr \<lparr>responseValues = [i0, i1], nextPageToken = Some ''5:2''\<rparr> \<and>
         snd (intervalsGenerator search getStart (r\<lparr>pageToken := Some ''5:2''\<rparr>)) =
           Inr (Yield (i2, Some ''7:0'') (Yield (i3, None) Stop)) \<and>
         intervalPage backend jsonLength search getStart r (Some ''5:2'') =
           Inr \<lparr>responseValues = [i2, i3], nextPageToken = None\<rparr>"
proof (intro conjI)
  from starts have g: "getStart i0 = 5" "getStart i1 = 5" "getStart i2 = 5" "getStart i3 = 7"
    by simp_all
  have gen1: "intervalsGenerator search getStart (r\<lparr>pageToken := None, pageSize := Some 2\<rparr>) =
      ([(start r, end' r)],
       Inr (foldr Yield (emit getStart (max (start r) (getStart i0), 0) i0 [i1, i2, i3]) Stop))"
    using intervalsGenerator_first [of "r\<lparr>pageToken := None, pageSize := Some 2\<rparr>" search
        i0 "[i1, i2, i3]" getStart] xs by simp
  have b1: "int (sum_list (map jsonLength (i0 # [i1, i2, i3]))) \<le> maxResponseLength backend"
    using budget by (simp add: withinBudget_def)
  have f: "foldl (anchorStep getStart) (max (start r) (getStart i0), 0) (take (nat 2) [i1, i2, i3])
      = (5, 2)"
    using st by (simp add: anchorStep_def g max_def)
  from intervalPage_positioned [OF gen1 ps _ b1]
  show "intervalPage backend jsonLength search getStart r None =
           Inr \<lparr>responseValues = [i0, i1], nextPageToken = Some ''5:2''\<rparr>"
    unfolding f by (simp add: formatToken_numeral)
  have "search 5 (end' r) = [i0, i1, i2, i3]" if "5 = start r"
    using that xs by simp
  then have kept: "(if 5 = start r then search 5 (end' r)
       else dropWhile (\<lambda>x. getStart x < 5) (search 5 (end' r))) = [i0, i1] @ i2 # [i3]"
    using requery by simp
  have gen: "intervalsGenerator search getStart (r\<lparr>pageToken := Some ''5:2'', pageSize := n\<rparr>) =
      ([(5, end' r)], Inr (foldr Yield (emit getStart (5, 2) i2 [i3]) Stop))" for n
    using intervalsGenerator_kept [of "r\<lparr>pageToken := Some ''5:2'', pageSize := n\<rparr>"
        5 2 search getStart "[i0, i1]" i2 "[i3]"] kept
    by (simp add: formatToken_numeral g cong: if_cong)
  from gen [of "pageSize r"]
  show "snd (intervalsGenerator search getStart (r\<lparr>pageToken := Some ''5:2''\<rparr>)) =
           Inr (Yield (i2, Some ''7:0'') (Yield (i3, None) Stop))"
    by (simp add: anchorStep_def g formatToken_numeral)
  have b2: "int (sum_list (map jsonLength (i2 # [i3]))) \<le> maxResponseLength backend"
    using budget by (simp add: withinBudget_def)
  from intervalPage_positioned [OF gen [of "Some 2"] ps _ b2]
  show "intervalPage backend jsonLength search getStart r (Some ''5:2'') =
           Inr \<lparr>responseValues = [i2, i3], nextPageToken = None\<rparr>"
    by simp
qed

lemma fetch_groupFile:
  "fetch groupFile 0 100 = groupFile"
  "dropWhile (\<lambda>x. intervalStart x < 20) (fetch groupFile 20 100) =
     [(''c'', 20, 30), (''d'', 20, 30), (''e'', 20, 30)]"
  by (simp_all add: fetch_def groupFile_def intervalStart_def)

lemma fetch_tieFile_requery:
  "dropWhile (\<lambda>x. intervalStart x < 5) (fetch tieFile 5 100) = tieFile"
  by (simp add: fetch_def tieFile_def intervalStart_def)

text \<open>
  Claim C4. A source yields five objects with starts 10, 10, 20, 20, 20 for a request that
  starts before 20, and a query from 20 yields the three objects that start at 20 after
  those that start earlier. With page size 3 (and the objects within the size budget) the
  first page holds the first three objects and the token \<^verbatim>\<open>20:1\<close>, and the page
  requested with that token holds the last two objects and no token.
\<close>

theorem two_group_pages:
  assumes "search (start r) (end' r) = [i0, i1, i2, i3, i4]"
    and "map getStart [i0, i1, i2, i3, i4] = [10, 10, 20, 20, 20]"
    and "start r < 20"
    and "dropWhile (\<lambda>x. getStart x < 20) (search 20 (end' r)) = [i2, i3, i4]"
    and "pageSize r = Some 3"
    and "withinBudget backend jsonLength [i0, i1, i2, i3, i4]"
  shows "intervalPage backend jsonLength search getStart r None =
           Inr \<lparr>responseValues = [i0, i1, i2], nextPageToken = Some ''20:1''\<rparr> \<and>
         intervalPage backend jsonLength search getStart r (Some ''20:1'') =
           Inr \<lparr>responseValues = [i3, i4], nextPageToken = None\<rparr>"
  using assms by (rule two_group_pages_lemma)

theorem two_group_pages_witness:
  "intervalPage mebibyte nameLength (fetch groupFile) intervalStart (window (Some 3) None) None =
     Inr \<lparr>responseValues = [(''a'', 10, 15), (''b'', 10, 25), (''c'', 20, 30)],
          nextPageToken = Some ''20:1''\<rparr> \<and>
   intervalPage mebibyte nameLength (fetch groupFile) intervalStart (window (Some 3) None)
       (Some ''20:1'') =
     Inr \<lparr>responseValues = [(''d'', 20, 30), (''e'', 20, 30)], nextPageToken = None\<rparr>"
proof -
  have 1: "fetch groupFile (start (window (Some 3) None)) (end' (window (Some 3) None)) =
      [(''a'', 10, 15), (''b'', 10, 25), (''c'', 20, 30), (''d'', 20, 30), (''e'', 20, 30)]"
    by (simp add: window_simps fetch_groupFile) (simp add: groupFile_def)
  have 2: "map intervalStart
      [(''a'', 10, 15), (''b'', 10, 25), (''c'', 20, 30), (''d'', 20, 30), (''e'', 20, 30)] =
      [10, 10, 20, 20, 20]"
    by (simp add: intervalStart_def)
  have 3: "start (window (Some 3) None) < 20" by (simp add: window_simps)
  have 4: "dropWhile (\<lambda>x. intervalStart x < 20)
      (fetch groupFile 20 (end' (window (Some 3) None))) =
      [(''c'', 20, 30), (''d'', 20, 30), (''e'', 20, 30)]"
    by (simp add: window_simps fetch_groupFile)
  have 5: "pageSize (window (Some 3) None) = Some 3" by (simp add: window_simps)
  have 6: "withinBudget mebibyte nameLength
      [(''a'', 10, 15), (''b'', 10, 25), (''c'', 20, 30), (''d'', 20, 30), (''e'', 20, 30)]"
    by (simp add: withinBudget_def nameLength_def mebibyte_def)
  show ?thesis
    by (rule two_group_pages [where search = "fetch groupFile" and r = "window (Some 3) None",
          OF 1 2 3 4 5 6])
qed

text \<open>
  Claim C3, as the code has it. A source yields four objects with starts 5, 5, 5, 7 for a
  request that starts at or before 5, and a query from 5 yields the same four objects. With
  page size 2 the first page holds the first two objects and its token is
  \<^verbatim>\<open>5:2\<close>: the distance counts both objects of the group at 5 that were returned.
  Resuming with \<^verbatim>\<open>5:2\<close> yields the third object, with the token
  \<^verbatim>\<open>7:0\<close> as the anchor moves to 7, and then the fourth, with no token.
\<close>

theorem tie_pages:
  assumes "search (start r) (end' r) = [i0, i1, i2, i3]"
    and "map getStart [i0, i1, i2, i3] = [5, 5, 5, 7]"
    and "start r \<le> 5"
    and "dropWhile (\<lambda>x. getStart x < 5) (search 5 (end' r)) = [i0, i1, i2, i3]"
    and "pageSize r = Some 2"
    and "withinBudget backend jsonLength [i0, i1, i2, i3]"
  shows "intervalPage backend jsonLength search getStart r None =
           Inr \<lparr>responseValues = [i0, i1], nextPageToken = Some ''5:2''\<rparr> \<and>
         snd (intervalsGenerator search getStart (r\<lparr>pageToken := Some ''5:2''\<rparr>)) =
           Inr (Yield (i2, Some ''7:0'') (Yield (i3, None) Stop)) \<and>
         intervalPage backend jsonLength search getStart r (Some ''5:2'') =
           Inr \<lparr>responseValues = [i2, i3], nextPageToken = None\<rparr>"
  using assms by (rule tie_pages_lemma)

lemma tieFile_hyps:
  "fetch tieFile (start (window (Some 2) None)) (end' (window (Some 2) None)) =
      [(''a'', 5, 6), (''b'', 5, 9), (''c'', 5, 9), (''d'', 7, 9)]"
  "map intervalStart [(''a'', 5, 6), (''b'', 5, 9), (''c'', 5, 9), (''d'', 7, 9)] = [5, 5, 5, 7]"
  "start (window (Some 2) None) \<le> 5"
  "dropWhile (\<lambda>x. intervalStart x < 5) (fetch tieFile 5 (end' (window (Some 2) None))) =
      [(''a'', 5, 6), (''b'', 5, 9), (''c'', 5, 9), (''d'', 7, 9)]"
  "pageSize (window (Some 2) None) = Some 2"
  "withinBudget mebibyte nameLength [(''a'', 5, 6), (''b'', 5, 9), (''c'', 5, 9), (''d'', 7, 9)]"
  by (simp_all add: window_simps fetch_def tieFile_def intervalStart_def withinBudget_def
      nameLength_def mebibyte_def)

theorem tie_pages_witness:
  "intervalPage mebibyte nameLength (fetch tieFile) intervalStart (window (Some 2) None) None =
     Inr \<lparr>responseValues = [(''a'', 5, 6), (''b'', 5, 9)], nextPageToken = Some ''5:2''\<rparr> \<and>
   intervalPage mebibyte nameLength (fetch tieFile) intervalStart (window (Some 2) None)
       (Some ''5:2'') =
     Inr \<lparr>responseValues = [(''c'', 5, 9), (''d'', 7, 9)], nextPageToken = None\<rparr>"
  using tie_pages [where search = "fetch tieFile" and r = "window (Some 2) None",
      OF tieFile_hyps]
  by simp

text \<open>
  On the file with starts 5, 5, 5, 7 the token of the first page of two objects is not
  \<^verbatim>\<open>5:1\<close>, and a request that resumes with \<^verbatim>\<open>5:1\<close> yields the second
  object again before the third and the fourth.
\<close>

theorem tie_token_counterexample:
  "\<not> (intervalPage mebibyte nameLength (fetch tieFile) intervalStart (window (Some 2) None) None =
        Inr \<lparr>responseValues = [(''a'', 5, 6), (''b'', 5, 9)], nextPageToken = Some ''5:1''\<rparr>) \<and>
   snd (intervalsGenerator (fetch tieFile) intervalStart (window (Some 2) (Some ''5:1''))) =
     Inr (Yield ((''b'', 5, 9), Some ''5:2'')
           (Yield ((''c'', 5, 9), Some ''7:0'') (Yield ((''d'', 7, 9), None) Stop)))"
proof
  have "intervalPage mebibyte nameLength (fetch tieFile) intervalStart (window (Some 2) None) None =
      Inr \<lparr>responseValues = [(''a'', 5, 6), (''b'', 5, 9)], nextPageToken = Some ''5:2''\<rparr>"
    using tie_pages_lemma [where search = "fetch tieFile" and r = "window (Some 2) None",
        OF tieFile_hyps]
    by simp
  then show "\<not> (intervalPage mebibyte nameLength (fetch tieFile) intervalStart
        (window (Some 2) None) None =
        Inr \<lparr>responseValues = [(''a'', 5, 6), (''b'', 5, 9)], nextPageToken = Some ''5:1''\<rparr>)"
    by simp
  have kept: "(if 5 = start (window (Some 2) (Some ''5:1''))
       then fetch tieFile 5 (end' (window (Some 2) (Some ''5:1'')))
       else dropWhile (\<lambda>x. intervalStart x < 5)
              (fetch tieFile 5 (end' (window (Some 2) (Some ''5:1''))))) =
      [(''a'', 5, 6)] @ (''b'', 5, 9) # [(''c'', 5, 9), (''d'', 7, 9)]"
    by (simp add: window_simps fetch_def tieFile_def intervalStart_def)
  have "intervalsGenerator (fetch tieFile) intervalStart (window (Some 2) (Some ''5:1'')) =
      ([(5, end' (window (Some 2) (Some ''5:1'')))],
       Inr (foldr Yield (emit intervalStart (5, 1) (''b'', 5, 9) [(''c'', 5, 9), (''d'', 7, 9)]) Stop))"
    by (rule intervalsGenerator_kept [where search = "fetch tieFile" and skip = 1
          and front = "[(''a'', 5, 6)]", OF _ kept])
       (simp_all add: window_simps formatToken_numeral intervalStart_def)
  then show "snd (intervalsGenerator (fetch tieFile) intervalStart
        (window (Some 2) (Some ''5:1''))) =
     Inr (Yield ((''b'', 5, 9), Some ''5:2'')
           (Yield ((''c'', 5, 9), Some ''7:0'') (Yield ((''d'', 7, 9), None) Stop)))"
    by (simp add: anchorStep_def intervalStart_def formatToken_numeral)
qed

lemma listIndex_elementAt:
  assumes "- int (length ids) \<le> j" "j < int (length ids)"
  shows "listIndex ids j = Inr (elementAt ids j)" and "elementAt ids j \<in> set ids"
  using assms by (auto simp: listIndex_def elementAt_def)

lemma topLevelLoop_eq:
  "- int (length idList) \<le> i \<Longrightarrow> set idList \<subseteq> dom idMap \<Longrightarrow>
   topLevelLoop toProtocolElement idMap idList i =
     foldr Yield
       (map (\<lambda>j. (toProtocolElement (the (idMap (elementAt idList j))),
                   if j + 1 < int (length idList) then Some (strInt (j + 1)) else None))
          [i..int (length idList) - 1]) Stop"
proof (induction toProtocolElement idMap idList i rule: topLevelLoop.induct)
  case (1 f m ids i)
  show ?case
  proof (cases "i < int (length ids)")
    case False
    then show ?thesis by (simp add: topLevelLoop.simps [of f m ids i])
  next
    case True
    from listIndex_elementAt [OF "1.prems"(1) True]
    have li: "listIndex ids i = Inr (elementAt ids i)" and mem: "elementAt ids i \<in> set ids"
      by simp_all
    from mem "1.prems"(2) obtain v where v: "m (elementAt ids i) = Some v" by auto
    have ih: "topLevelLoop f m ids (i + 1) =
        foldr Yield
          (map (\<lambda>j. (f (the (m (elementAt ids j))),
                      if j + 1 < int (length ids) then Some (strInt (j + 1)) else None))
             [i + 1..int (length ids) - 1]) Stop"
      using "1.prems" by (intro "1.IH" [OF True li v]) simp_all
    have up: "[i..int (length ids) - 1] = i # [i + 1..int (length ids) - 1]"
      using True by (simp add: upto_rec1)
    show ?thesis
      unfolding up by (simp add: topLevelLoop.simps [of f m ids i] True li v ih)
  qed
qed

text \<open>
  Claim C8. From the start index \<open>i\<close> (0 without a token, else the integer of the
  one-field token), the generator over an identifier list yields the objects at the
  indices \<open>i\<close>, \<open>i + 1\<close>, ... up to the last one, each with the token
  \<^verbatim>\<open>str(index + 1)\<close> while a further identifier remains and with no token for the
  last identifier. A negative index counts from the end of the list, as list indexing does.
\<close>

theorem topLevel_pages:
  assumes "(pageToken request = None \<and> i = 0) \<or>
           (\<exists>token. pageToken request = Some token \<and> parsePageToken token 1 = Inr [i])"
    and "- int (length idList) \<le> i"
    and "set idList \<subseteq> dom idMap"
  shows "topLevelObjectGenerator toProtocolElement request idMap idList =
     foldr Yield
       (map (\<lambda>j. (toProtocolElement (the (idMap (elementAt idList j))),
                   if j + 1 < int (length idList) then Some (strInt (j + 1)) else None))
          [i..int (length idList) - 1]) Stop"
  using assms(1) topLevelLoop_eq [OF assms(2,3), of toProtocolElement]
  by (auto simp: topLevelObjectGenerator_def)

theorem topLevel_pages_witness:
  "topLevelObjectGenerator id (window None (Some ''1''))
     [''x'' \<mapsto> (10::nat), ''y'' \<mapsto> 20, ''z'' \<mapsto> 30] [''x'', ''y'', ''z''] =
   Yield (20, Some ''2'') (Yield (30, None) Stop)"
proof -
  have t: "parsePageToken ''1'' 1 = Inr [1]"
    by code_simp
  have s: "strInt 2 = ''2''" by code_simp
  have u: "[1..2] = [1, 2::int]" by (simp add: upto_rec1)
  have "(pageToken (window None (Some ''1'')) = None \<and> (1::int) = 0) \<or>
           (\<exists>token. pageToken (window None (Some ''1'')) = Some token \<and>
              parsePageToken token 1 = Inr [1])"
    using t by (simp add: window_simps)
  from topLevel_pages [OF this, of "[''x'', ''y'', ''z'']"
      "[''x'' \<mapsto> (10::nat), ''y'' \<mapsto> 20, ''z'' \<mapsto> 30]" id]
  show ?thesis by (simp add: elementAt_def u s)
qed


end
